theory Spec2Isabelle
  imports Main "HOL-Library.Sublist"
begin

section \<open>JavaScript strings\<close>

text \<open>
  The story generator works on JavaScript strings, which are sequences of UTF-16 code
  units; \<open>length\<close>, \<open>substring\<close>, \<open>split\<close> and \<open>trim\<close> all count code units.
  The model uses \<^typ>\<open>string\<close>, whose characters are 8-bit, so it covers exactly the texts
  whose code units lie below 256 (ASCII and Latin-1); one \<^typ>\<open>char\<close> is one code unit.
  Within that range the character classes below are the ECMAScript ones:
  white space (\<open>\s\<close> and \<open>trim\<close>) is TAB, LF, VT, FF, CR, SP and NBSP, a digit (\<open>\d\<close>)
  is one of \<open>0\<close>..\<open>9\<close>, and \<open>toLowerCase\<close> maps \<open>A\<close>..\<open>Z\<close> and the Latin-1
  capitals (all of \<open>0xC0\<close>..\<open>0xDE\<close> but the multiplication sign) to their small letters.
\<close>

definition LF :: char where
  "LF = CHR 0x0A"

definition isWhiteSpace :: "char \<Rightarrow> bool" where
  "isWhiteSpace c \<longleftrightarrow>
     c \<in> set [CHR 0x09, CHR 0x0A, CHR 0x0B, CHR 0x0C, CHR 0x0D, CHR 0x20, CHR 0xA0]"

definition isDigit :: "char \<Rightarrow> bool" where
  "isDigit c \<longleftrightarrow> c \<in> set ''0123456789''"

definition trim :: "string \<Rightarrow> string" where
  "trim s = rev (dropWhile isWhiteSpace (rev (dropWhile isWhiteSpace s)))"

definition upperCaseChars :: string where
  "upperCaseChars = ''ABCDEFGHIJKLMNOPQRSTUVWXYZ'' @
     [CHR 0xC0, CHR 0xC1, CHR 0xC2, CHR 0xC3, CHR 0xC4, CHR 0xC5, CHR 0xC6, CHR 0xC7,
      CHR 0xC8, CHR 0xC9, CHR 0xCA, CHR 0xCB, CHR 0xCC, CHR 0xCD, CHR 0xCE, CHR 0xCF,
      CHR 0xD0, CHR 0xD1, CHR 0xD2, CHR 0xD3, CHR 0xD4, CHR 0xD5, CHR 0xD6,
      CHR 0xD8, CHR 0xD9, CHR 0xDA, CHR 0xDB, CHR 0xDC, CHR 0xDD, CHR 0xDE]"

definition lowerCaseChars :: string where
  "lowerCaseChars = ''abcdefghijklmnopqrstuvwxyz'' @
     [CHR 0xE0, CHR 0xE1, CHR 0xE2, CHR 0xE3, CHR 0xE4, CHR 0xE5, CHR 0xE6, CHR 0xE7,
      CHR 0xE8, CHR 0xE9, CHR 0xEA, CHR 0xEB, CHR 0xEC, CHR 0xED, CHR 0xEE, CHR 0xEF,
      CHR 0xF0, CHR 0xF1, CHR 0xF2, CHR 0xF3, CHR 0xF4, CHR 0xF5, CHR 0xF6,
      CHR 0xF8, CHR 0xF9, CHR 0xFA, CHR 0xFB, CHR 0xFC, CHR 0xFD, CHR 0xFE]"

definition toLowerChar :: "char \<Rightarrow> char" where
  "toLowerChar c =
     (case map_of (zip upperCaseChars lowerCaseChars) c of Some l \<Rightarrow> l | None \<Rightarrow> c)"

definition toLowerCase :: "string \<Rightarrow> string" where
  "toLowerCase s = map toLowerChar s"

text \<open>\<open>s.includes(k)\<close>: \<open>k\<close> occurs in \<open>s\<close> as a contiguous run of code units.\<close>

definition includesStr :: "string \<Rightarrow> string \<Rightarrow> bool" where
  "includesStr s k \<longleftrightarrow> sublist k s"

text \<open>\<open>s.substring(0, n)\<close> for a non-negative \<open>n\<close>.\<close>

definition substring0 :: "string \<Rightarrow> nat \<Rightarrow> string" where
  "substring0 s n = take n s"

text \<open>\<open>a || b\<close> on strings: the empty string is the only falsy one.\<close>

definition orElse :: "string \<Rightarrow> string \<Rightarrow> string" where
  "orElse a b = (if a = [] then b else a)"

text \<open>\<open>xs.join(sep)\<close>.\<close>

fun join :: "string \<Rightarrow> string list \<Rightarrow> string" where
  "join sep [] = []"
| "join sep [x] = x"
| "join sep (x # y # ys) = x @ sep @ join sep (y # ys)"

text \<open>\<open>xs.slice(start, end)\<close> for non-negative indices: empty when \<open>end \<le> start\<close> or
  \<open>start\<close> lies beyond the array.\<close>

definition slice :: "nat \<Rightarrow> nat \<Rightarrow> 'a list \<Rightarrow> 'a list" where
  "slice start end xs = take (end - start) (drop start xs)"

text \<open>\<open>s.split(sep)\<close> for a one-character separator string; the result is never empty.\<close>

fun splitChar :: "char \<Rightarrow> string \<Rightarrow> string list" where
  "splitChar sep [] = [[]]"
| "splitChar sep (c # cs) =
     (if c = sep then [] # splitChar sep cs
      else (case splitChar sep cs of [] \<Rightarrow> [[c]] | l # ls \<Rightarrow> (c # l) # ls))"

text \<open>Interpolation of a number into a template literal: its decimal digits.\<close>

definition digitChar :: "nat \<Rightarrow> char" where
  "digitChar d = ''0123456789'' ! d"

function numberToString :: "nat \<Rightarrow> string" where
  "numberToString n =
     (if n < 10 then [digitChar n] else numberToString (n div 10) @ [digitChar (n mod 10)])"
  by pat_completeness auto
termination
  by (relation "measure id") auto

declare numberToString.simps [simp del]

section \<open>The regular expressions of the parser\<close>

text \<open>
  The source uses four regular expressions. Under the \<open>i\<close> flag (without \<open>u\<close>) a pattern
  letter matches exactly its two ASCII cases. In \<open>SCENE\s+\d+:\<close> the classes \<open>\s\<close>,
  \<open>\d\<close> and \<open>:\<close> are pairwise disjoint, so the greedy match is the only candidate:
  giving back white space or digits leaves a character that the next item rejects.
  A matcher returns the rest of the input behind the match.
\<close>

fun matchIgnoreCase :: "string \<Rightarrow> string \<Rightarrow> string option" where
  "matchIgnoreCase [] s = Some s"
| "matchIgnoreCase (p # ps) [] = None"
| "matchIgnoreCase (p # ps) (c # cs) =
     (if toLowerChar c = toLowerChar p then matchIgnoreCase ps cs else None)"

text \<open>\<open>/^SCENE\s+\d+/i\<close>, the lenient scene header of the line scan.\<close>

definition matchSceneHeader :: "string \<Rightarrow> string option" where
  "matchSceneHeader s =
     (case matchIgnoreCase ''SCENE'' s of
        None \<Rightarrow> None
      | Some r \<Rightarrow>
          (let r2 = dropWhile isWhiteSpace r in
           if takeWhile isWhiteSpace r = [] \<or> takeWhile isDigit r2 = [] then None
           else Some (dropWhile isDigit r2)))"

text \<open>\<open>/SCENE\s+\d+:/i\<close> at the start of \<open>s\<close>, the scene marker of the primary split.\<close>

definition matchSceneMarker :: "string \<Rightarrow> string option" where
  "matchSceneMarker s =
     (case matchSceneHeader s of
        Some (c # r) \<Rightarrow> if c = CHR '':'' then Some r else None
      | _ \<Rightarrow> None)"

text \<open>\<open>/[.!?]+/\<close> at the start of \<open>s\<close>, the sentence separator.\<close>

definition isSentenceEnd :: "char \<Rightarrow> bool" where
  "isSentenceEnd c \<longleftrightarrow> c \<in> set ''.!?''"

definition matchSentenceEnd :: "string \<Rightarrow> string option" where
  "matchSentenceEnd s =
     (if takeWhile isSentenceEnd s = [] then None else Some (dropWhile isSentenceEnd s))"

datatype pattern = SceneMarker | SentenceEnd

fun matchAt :: "pattern \<Rightarrow> string \<Rightarrow> string option" where
  "matchAt SceneMarker s = matchSceneMarker s"
| "matchAt SentenceEnd s = matchSentenceEnd s"

lemma matchIgnoreCase_length:
  "matchIgnoreCase p s = Some r \<Longrightarrow> length r + length p = length s"
  by (induction p s rule: matchIgnoreCase.induct) (auto split: if_splits)

lemma matchSceneHeader_length:
  assumes "matchSceneHeader s = Some r"
  shows "length r < length s"
proof -
  from assms obtain r1 where r1: "matchIgnoreCase ''SCENE'' s = Some r1"
    and r: "r = dropWhile isDigit (dropWhile isWhiteSpace r1)"
    by (auto simp: matchSceneHeader_def Let_def split: option.splits if_splits)
  have "length r \<le> length (dropWhile isWhiteSpace r1)"
    unfolding r by (rule length_dropWhile_le)
  also have "\<dots> \<le> length r1"
    by (rule length_dropWhile_le)
  finally show ?thesis
    using matchIgnoreCase_length [OF r1] by simp
qed

lemma matchSceneMarker_length:
  "matchSceneMarker s = Some r \<Longrightarrow> length r < length s"
  by (auto simp: matchSceneMarker_def split: option.splits list.splits if_splits
      dest: matchSceneHeader_length)

lemma matchSentenceEnd_length:
  assumes "matchSentenceEnd s = Some r"
  shows "length r < length s"
proof -
  from assms have ne: "takeWhile isSentenceEnd s \<noteq> []" and r: "r = dropWhile isSentenceEnd s"
    by (auto simp: matchSentenceEnd_def split: if_splits)
  have "length (takeWhile isSentenceEnd s) + length (dropWhile isSentenceEnd s) = length s"
    by (metis length_append takeWhile_dropWhile_id)
  with ne r show ?thesis
    by (cases "takeWhile isSentenceEnd s") auto
qed

lemma matchAt_length: "matchAt p s = Some r \<Longrightarrow> length r < length s"
  by (cases p) (auto dest: matchSceneMarker_length matchSentenceEnd_length)

text \<open>
  \<open>s.split(regex)\<close> for a pattern that never matches the empty string: scan from the
  left, try the pattern at each position, cut out every match found and resume behind it.
  No group is captured, so only the pieces between the matches are returned.
\<close>

function regexSplit :: "pattern \<Rightarrow> string \<Rightarrow> string list" where
  "regexSplit p [] = [[]]"
| "regexSplit p (c # cs) =
     (case matchAt p (c # cs) of
        Some rest \<Rightarrow> [] # regexSplit p rest
      | None \<Rightarrow> (case regexSplit p cs of [] \<Rightarrow> [[c]] | l # ls \<Rightarrow> (c # l) # ls))"
  by pat_completeness auto
termination
  by (relation "measure (\<lambda>(p, s). length s)") (auto dest: matchAt_length)

section \<open>Characters, scenes and stories\<close>

text \<open>
  The character profile that the caller passes in. Optional properties are options;
  \<open>name\<close> is a string throughout.
\<close>

record characterDNA =
  name :: string
  traits :: "string list option"
  characterDescription :: "string option"

text \<open>
  A scene object. The source builds scenes in four places, and one of them leaves the
  property \<open>description\<close> out, so it is an option here: \<open>None\<close> is the absent property.
  The property \<open>id\<close> is \<open>sceneId\<close>, the property \<open>title\<close> is \<open>sceneTitle\<close>.
\<close>

record scene =
  sceneId :: string
  number :: nat
  sceneTitle :: string
  content :: string
  description :: "string option"
  characterName :: string
  storyboardPrompt :: string

text \<open>
  A story object. The flags \<open>emergencyFallback\<close> and \<open>fallbackParsed\<close> are set to
  \<open>true\<close> or absent in the source; absent is \<open>False\<close> here.
\<close>

record story =
  title :: string
  scenes :: "scene list"
  totalScenes :: nat
  character :: characterDNA
  emergencyFallback :: bool
  fallbackParsed :: bool

definition storyTitle :: "characterDNA \<Rightarrow> string" where
  "storyTitle c = name c @ [CHR 0x27] @ ''s Adventure''"

definition sceneIdOf :: "nat \<Rightarrow> string" where
  "sceneIdOf n = ''scene_'' @ numberToString n"

section \<open>Storyboard prompts\<close>

definition classifySetting :: "string \<Rightarrow> string" where
  "classifySetting contentWords =
     (if includesStr contentWords ''library'' \<or> includesStr contentWords ''book''
        then ''ancient library with books and shelves''
      else if includesStr contentWords ''forest'' \<or> includesStr contentWords ''tree''
        then ''mystical forest''
      else if includesStr contentWords ''cave'' \<or> includesStr contentWords ''underground''
        then ''mysterious cave''
      else if includesStr contentWords ''castle'' \<or> includesStr contentWords ''tower''
        then ''medieval castle''
      else if includesStr contentWords ''city'' \<or> includesStr contentWords ''street''
        then ''bustling city street''
      else if includesStr contentWords ''mountain'' \<or> includesStr contentWords ''peak''
        then ''mountain landscape''
      else if includesStr contentWords ''ocean'' \<or> includesStr contentWords ''sea''
        then ''coastal scene with ocean''
      else ''indoor scene'')"

definition classifyAction :: "string \<Rightarrow> string" where
  "classifyAction contentWords =
     (if includesStr contentWords ''running'' \<or> includesStr contentWords ''chase''
        then ''running or chasing''
      else if includesStr contentWords ''fighting'' \<or> includesStr contentWords ''battle''
        then ''in combat stance''
      else if includesStr contentWords ''searching'' \<or> includesStr contentWords ''looking''
        then ''searching and investigating''
      else if includesStr contentWords ''climbing'' \<or> includesStr contentWords ''ascending''
        then ''climbing''
      else if includesStr contentWords ''flying'' \<or> includesStr contentWords ''soaring''
        then ''flying through the air''
      else if includesStr contentWords ''discovering'' \<or> includesStr contentWords ''found''
        then ''making a discovery''
      else if includesStr contentWords ''hiding'' \<or> includesStr contentWords ''sneaking''
        then ''hiding or sneaking''
      else ''standing'')"

definition classifyMood :: "string \<Rightarrow> string" where
  "classifyMood contentWords =
     (if includesStr contentWords ''scared'' \<or> includesStr contentWords ''afraid''
          \<or> includesStr contentWords ''terrified''
        then ''scared or worried''
      else if includesStr contentWords ''happy'' \<or> includesStr contentWords ''excited''
          \<or> includesStr contentWords ''joy''
        then ''happy and excited''
      else if includesStr contentWords ''angry'' \<or> includesStr contentWords ''furious''
          \<or> includesStr contentWords ''mad''
        then ''angry or determined''
      else if includesStr contentWords ''surprised'' \<or> includesStr contentWords ''shocked''
          \<or> includesStr contentWords ''amazed''
        then ''surprised and amazed''
      else if includesStr contentWords ''sad'' \<or> includesStr contentWords ''crying''
          \<or> includesStr contentWords ''upset''
        then ''sad or emotional''
      else if includesStr contentWords ''curious'' \<or> includesStr contentWords ''wonder''
          \<or> includesStr contentWords ''investigate''
        then ''curious and focused''
      else ''neutral'')"

text \<open>
  \<open>generateStoryboardPrompt\<close>. The template literal spans thirteen source lines; every
  line break in it is an LF followed by the four blanks of the source's indentation.
\<close>

definition templateBreak :: string where
  "templateBreak = LF # ''    ''"

definition generateStoryboardPrompt :: "string \<Rightarrow> string \<Rightarrow> characterDNA \<Rightarrow> string" where
  "generateStoryboardPrompt sceneTitle' sceneContent characterDNA' =
     (let characterName' = orElse (name characterDNA') ''character'';
          characterTraits =
            orElse (case traits characterDNA' of
                      None \<Rightarrow> []
                    | Some ts \<Rightarrow> join '', '' (slice 0 2 ts)) ''adventurous'';
          contentWords = toLowerCase sceneContent;
          setting = classifySetting contentWords;
          action = classifyAction contentWords;
          mood = classifyMood contentWords
      in ''Create a detailed storyboard panel for: '' @ sceneTitle' @ templateBreak
         @ templateBreak
         @ ''Main character: '' @ characterName' @ '' ('' @ characterTraits @ '')''
         @ templateBreak
         @ ''Setting: '' @ setting @ templateBreak
         @ ''Action: '' @ characterName' @ '' is '' @ action @ templateBreak
         @ ''Mood/Expression: '' @ mood @ templateBreak
         @ templateBreak
         @ ''Visual style: Clean storyboard illustration, cinematic composition, ''
         @ ''clear character poses, detailed background elements, professional ''
         @ ''animation reference quality. Character should be the main focus with ''
         @ ''supporting environmental details.'' @ templateBreak
         @ templateBreak
         @ ''Camera angle: Medium shot showing character and environment'' @ templateBreak
         @ ''Lighting: Dramatic and appropriate for the scene mood'' @ templateBreak
         @ templateBreak
         @ ''Based on story content: '' @ substring0 sceneContent 150 @ ''...'')"

section \<open>The scene parser\<close>

subsection \<open>Emergency fallback\<close>

definition createEmergencyFallback :: "characterDNA \<Rightarrow> string \<Rightarrow> story" where
  "createEmergencyFallback characterDNA' storyText =
     (let fallbackContent =
            orElse storyText
              (name characterDNA'
                 @ '' embarks on an exciting adventure filled with challenges and discoveries.'')
      in \<lparr>title = storyTitle characterDNA',
          scenes = [\<lparr>sceneId = ''scene_1'',
                     number = 1,
                     sceneTitle = ''The Adventure Begins'',
                     content = fallbackContent,
                     description = Some fallbackContent,
                     characterName = name characterDNA',
                     storyboardPrompt = name characterDNA' @ '' begins an exciting adventure''\<rparr>],
          totalScenes = 1,
          character = characterDNA',
          emergencyFallback = True,
          fallbackParsed = False\<rparr>)"

subsection \<open>Last resort: equal chunks of sentences\<close>

text \<open>
  \<open>splitTextIntoChunks\<close>. \<open>Math.ceil(n / numChunks)\<close> on non-negative integers is
  \<open>(n + numChunks - 1) div numChunks\<close>. The \<open>for\<close> loop over \<open>i\<close> is \<open>chunkLoop\<close>.
\<close>

definition sentencesOf :: "string \<Rightarrow> string list" where
  "sentencesOf text = filter (\<lambda>s. trim s \<noteq> []) (regexSplit SentenceEnd text)"

function chunkLoop :: "string list \<Rightarrow> nat \<Rightarrow> nat \<Rightarrow> nat \<Rightarrow> string list \<Rightarrow> string list" where
  "chunkLoop sentences chunkSize numChunks i chunks =
     (if i < numChunks then
        (let start = i * chunkSize;
             end' = min (start + chunkSize) (length sentences);
             chunk = trim (join ''. '' (slice start end' sentences))
         in chunkLoop sentences chunkSize numChunks (i + 1)
              (if chunk \<noteq> [] then chunks @ [chunk @ ''.''] else chunks))
      else chunks)"
  by pat_completeness auto
termination
  by (relation "measure (\<lambda>(sentences, chunkSize, numChunks, i, chunks). numChunks - i)") auto

declare chunkLoop.simps [simp del]

definition splitTextIntoChunks :: "string \<Rightarrow> nat \<Rightarrow> string list" where
  "splitTextIntoChunks text numChunks =
     (let sentences = sentencesOf text;
          chunkSize = (length sentences + numChunks - 1) div numChunks
      in chunkLoop sentences chunkSize numChunks 0 [])"

subsection \<open>Fallback strategy: line scan\<close>

text \<open>
  The test \<open>trimmedLine.match(/^SCENE\s+\d+/i) || trimmedLine.match(/^Scene\s+\d+/i)\<close>;
  its second disjunct is the first one again.
\<close>

definition isSceneHeader :: "string \<Rightarrow> bool" where
  "isSceneHeader trimmedLine \<longleftrightarrow> matchSceneHeader trimmedLine \<noteq> None"

text \<open>
  \<open>s.replace(/^SCENE\s+\d+:\s*/i, '')\<close>: a marker at the very start is removed together
  with the white space behind it. The source applies it twice in a row.
\<close>

definition stripSceneMarker :: "string \<Rightarrow> string" where
  "stripSceneMarker s =
     (case matchSceneMarker s of None \<Rightarrow> s | Some r \<Rightarrow> dropWhile isWhiteSpace r)"

text \<open>
  The state of the scan is the list \<open>scenes\<close>, the scene being filled
  (\<open>currentScene\<close>, \<open>None\<close> for \<open>null\<close>) and \<open>sceneCount\<close>. A scene is pushed only
  when the next header or the end of the input is reached, and it is not changed after
  that, so the push can copy it.
\<close>

definition flushScene :: "scene list \<Rightarrow> scene option \<Rightarrow> scene list" where
  "flushScene scenes' currentScene =
     (case currentScene of
        None \<Rightarrow> scenes'
      | Some s \<Rightarrow> if trim (content s) \<noteq> [] then scenes' @ [s] else scenes')"

fun scanLines ::
  "characterDNA \<Rightarrow> string list \<Rightarrow> scene list \<times> scene option \<times> nat
     \<Rightarrow> scene list \<times> scene option \<times> nat" where
  "scanLines characterDNA' [] st = st"
| "scanLines characterDNA' (line # lines) (scenes', currentScene, sceneCount) =
     (let trimmedLine = trim line in
      if isSceneHeader trimmedLine then
        (let sceneCount' = sceneCount + 1;
             title' = orElse (stripSceneMarker (stripSceneMarker trimmedLine))
                        (''Scene '' @ numberToString sceneCount')
         in scanLines characterDNA' lines
              (flushScene scenes' currentScene,
               Some \<lparr>sceneId = sceneIdOf sceneCount',
                     number = sceneCount',
                     sceneTitle = title',
                     content = [],
                     description = Some [],
                     characterName = name characterDNA',
                     storyboardPrompt = []\<rparr>,
               sceneCount'))
      else
        (case currentScene of
           Some s \<Rightarrow>
             if trimmedLine \<noteq> [] then
               scanLines characterDNA' lines
                 (scenes',
                  Some (s\<lparr>content :=
                     content s @ (if content s \<noteq> [] then '' '' else []) @ trimmedLine\<rparr>),
                  sceneCount)
             else scanLines characterDNA' lines (scenes', currentScene, sceneCount)
         | None \<Rightarrow> scanLines characterDNA' lines (scenes', currentScene, sceneCount)))"

definition chunkScene :: "characterDNA \<Rightarrow> nat \<Rightarrow> string \<Rightarrow> scene" where
  "chunkScene characterDNA' i chunk =
     \<lparr>sceneId = sceneIdOf (i + 1),
      number = i + 1,
      sceneTitle = ''Scene '' @ numberToString (i + 1),
      content = chunk,
      description = Some chunk,
      characterName = name characterDNA',
      storyboardPrompt =
        generateStoryboardPrompt (''Scene '' @ numberToString (i + 1)) chunk characterDNA'\<rparr>"

text \<open>The loop \<open>for (let i = 0; i < textChunks.length; i++)\<close>, from index \<open>i\<close> on.\<close>

fun chunkScenes :: "characterDNA \<Rightarrow> nat \<Rightarrow> string list \<Rightarrow> scene list" where
  "chunkScenes characterDNA' i [] = []"
| "chunkScenes characterDNA' i (chunk # textChunks) =
     chunkScene characterDNA' i chunk # chunkScenes characterDNA' (i + 1) textChunks"

text \<open>The final \<open>forEach\<close> over the scenes.\<close>

definition refreshScene :: "characterDNA \<Rightarrow> scene \<Rightarrow> scene" where
  "refreshScene characterDNA' s =
     s\<lparr>description := Some (content s),
       storyboardPrompt := generateStoryboardPrompt (sceneTitle s) (content s) characterDNA'\<rparr>"

definition lineScanScenes :: "string \<Rightarrow> characterDNA \<Rightarrow> scene list" where
  "lineScanScenes storyText characterDNA' =
     (let lines = filter (\<lambda>line. trim line \<noteq> []) (splitChar LF storyText)
      in case scanLines characterDNA' lines ([], None, 0) of
           (scenes', currentScene, sceneCount) \<Rightarrow> flushScene scenes' currentScene)"

definition fallbackParseStory :: "string \<Rightarrow> characterDNA \<Rightarrow> story" where
  "fallbackParseStory storyText characterDNA' =
     (let scanned = lineScanScenes storyText characterDNA';
          scenes' =
            (if scanned = []
             then chunkScenes characterDNA' 0 (splitTextIntoChunks storyText 4)
             else scanned);
          scenes'' = map (refreshScene characterDNA') scenes'
      in \<lparr>title = storyTitle characterDNA',
          scenes = take 4 scenes'',
          totalScenes = min (length scenes'') 4,
          character = characterDNA',
          emergencyFallback = False,
          fallbackParsed = True\<rparr>)"

subsection \<open>Primary strategy: split at the scene markers\<close>

text \<open>
  The primary strategy runs inside \<open>try\<close>. What can throw there is a property read on
  \<open>undefined\<close>: \<open>sceneParts[0].trim()\<close> on an empty array and \<open>lines[0].trim()\<close>
  likewise. Both are branches of the model; the \<open>catch\<close> turns them into the fallback.
\<close>

datatype jsError = TypeError

definition primaryScene :: "characterDNA \<Rightarrow> nat \<Rightarrow> string \<Rightarrow> string \<Rightarrow> scene" where
  "primaryScene characterDNA' sceneNumber title' content' =
     \<lparr>sceneId = sceneIdOf sceneNumber,
      number = sceneNumber,
      sceneTitle = title',
      content = content',
      description = Some content',
      characterName = name characterDNA',
      storyboardPrompt = generateStoryboardPrompt title' content' characterDNA'\<rparr>"

text \<open>
  The loop \<open>for (i = startIndex; i < sceneParts.length && scenes.length < 4; i++)\<close>,
  run on the parts from \<open>i\<close> on.
\<close>

fun primaryLoop :: "characterDNA \<Rightarrow> string list \<Rightarrow> scene list \<Rightarrow> jsError + scene list" where
  "primaryLoop characterDNA' [] scenes' = Inr scenes'"
| "primaryLoop characterDNA' (p # sceneParts) scenes' =
     (if length scenes' < 4 then
        (let part = trim p in
         if part = [] then primaryLoop characterDNA' sceneParts scenes'
         else
           (case splitChar LF part of
              [] \<Rightarrow> Inl TypeError
            | l # lines \<Rightarrow>
                (let title' = trim l;
                     content' = trim (join [LF] lines)
                 in if title' \<noteq> [] \<and> content' \<noteq> [] then
                      primaryLoop characterDNA' sceneParts
                        (scenes' @ [primaryScene characterDNA' (length scenes' + 1) title' content'])
                    else primaryLoop characterDNA' sceneParts scenes')))
      else Inr scenes')"

definition primaryParse :: "string \<Rightarrow> characterDNA \<Rightarrow> jsError + scene list" where
  "primaryParse storyText characterDNA' =
     (let sceneParts = regexSplit SceneMarker storyText
      in case sceneParts of
           [] \<Rightarrow> Inl TypeError
         | p0 # _ \<Rightarrow>
             (let startIndex = (if trim p0 = [] then 1 else 0)
              in primaryLoop characterDNA' (drop startIndex sceneParts) []))"

subsection \<open>Normalisation to four scenes\<close>

definition paddingScene :: "characterDNA \<Rightarrow> nat \<Rightarrow> scene" where
  "paddingScene characterDNA' sceneNum =
     (let fallbackContent =
            name characterDNA' @ '' continues their adventure with determination and courage.''
      in \<lparr>sceneId = sceneIdOf sceneNum,
          number = sceneNum,
          sceneTitle = ''Scene '' @ numberToString sceneNum,
          content = fallbackContent,
          description = None,
          characterName = name characterDNA',
          storyboardPrompt =
            generateStoryboardPrompt (''Scene '' @ numberToString sceneNum) fallbackContent
              characterDNA'\<rparr>)"

text \<open>The loop \<open>while (scenes.length < 4)\<close>.\<close>

function padScenes :: "characterDNA \<Rightarrow> scene list \<Rightarrow> scene list" where
  "padScenes characterDNA' scenes' =
     (if length scenes' < 4
      then padScenes characterDNA' (scenes' @ [paddingScene characterDNA' (length scenes' + 1)])
      else scenes')"
  by pat_completeness auto
termination
  by (relation "measure (\<lambda>(characterDNA', scenes'). 4 - length scenes')") auto

declare padScenes.simps [simp del]

definition parseStoryIntoScenes :: "string \<Rightarrow> characterDNA \<Rightarrow> story" where
  "parseStoryIntoScenes storyText characterDNA' =
     (if storyText = [] \<or> length storyText < 50
      then createEmergencyFallback characterDNA' storyText
      else
        (case primaryParse storyText characterDNA' of
           Inl error \<Rightarrow> fallbackParseStory storyText characterDNA'
         | Inr scenes' \<Rightarrow>
             if scenes' = [] then fallbackParseStory storyText characterDNA'
             else
               \<lparr>title = storyTitle characterDNA',
                scenes =
                  (if length scenes' > 4 then take 4 scenes'
                   else if length scenes' < 4 then padScenes characterDNA' scenes'
                   else scenes'),
                totalScenes = 4,
                character = characterDNA',
                emergencyFallback = False,
                fallbackParsed = False\<rparr>))"

section \<open>The orchestrator\<close>

subsection \<open>Retryable errors\<close>

definition retryableMessages :: "string list" where
  "retryableMessages =
     [''overloaded'', ''service unavailable'', ''503'', ''temporarily unavailable'',
      ''rate limit'', ''quota exceeded'', ''timed out'', ''timeout'']"

text \<open>\<open>isRetryableError(error)\<close>, on \<open>error.message\<close>.\<close>

definition isRetryableError :: "string \<Rightarrow> bool" where
  "isRetryableError message =
     (let errorMessage = toLowerCase message
      in list_ex (\<lambda>msg. includesStr errorMessage msg) retryableMessages)"

subsection \<open>The language model as seen by one attempt\<close>

text \<open>
  The model service is external. Each attempt builds the prompt, hands it to the service
  and races the answer against a timer of 45 seconds. The prompt plays no part in the
  control flow, so a call is a transition of the service's state \<^typ>\<open>'st\<close> with one of
  three outcomes: the call (or the reading of the response text) fails with a message, it
  yields the response text, or it is still pending when the timer fires.
\<close>

datatype modelOutcome = Rejects string | Responds string | Pending

definition maxRetries :: nat where
  "maxRetries = 3"

definition timeoutMessage :: string where
  "timeoutMessage = ''Gemini API request timed out after 45 seconds''"

text \<open>What the \<open>try\<close> block gets from the race: the error message (\<open>Inl\<close>) or the text.\<close>

fun raceWithTimeout :: "modelOutcome \<Rightarrow> string + string" where
  "raceWithTimeout (Rejects message) = Inl message"
| "raceWithTimeout (Responds storyText) = Inr storyText"
| "raceWithTimeout Pending = Inl timeoutMessage"

subsection \<open>Results\<close>

record metadata =
  genre :: string
  characterOf :: string
  estimatedReadTime :: nat
  sceneCount :: nat
  generatedBy :: string
  attempt :: nat

record generationResult =
  success :: bool
  story :: story
  rawText :: string
  metadata :: metadata

text \<open>
  How a call of \<open>generateStory\<close> ends: it returns a result, it throws an \<open>Error\<close> with
  a message, or the \<open>for\<close> loop runs out and the function returns \<open>undefined\<close>.
\<close>

datatype generationOutcome = Returned generationResult | Threw string | ReturnedUndefined

subsection \<open>Parsing inside the attempt\<close>

text \<open>
  The attempt calls the parser inside its own \<open>try\<close>; when the parser throws, the
  \<open>catch\<close> builds a one-scene story from the first 500 code units of the text. The
  parser is a parameter here, so that this branch is part of the model whatever the parser
  does; \<open>generateStory\<close> below uses \<open>parseStoryIntoScenes\<close>. The timer that the source
  starts before parsing only fires after the synchronous parse has finished and then
  does nothing.
\<close>

definition parseOrEmergency ::
  "(string \<Rightarrow> characterDNA \<Rightarrow> 'e + story) \<Rightarrow> string \<Rightarrow> characterDNA \<Rightarrow> story" where
  "parseOrEmergency parser storyText characterDNA' =
     (case parser storyText characterDNA' of
        Inr parsedStory \<Rightarrow> parsedStory
      | Inl parseError \<Rightarrow>
          \<lparr>title = storyTitle characterDNA',
           scenes =
             [\<lparr>sceneId = ''scene_1'',
               number = 1,
               sceneTitle = ''The Adventure Begins'',
               content = substring0 storyText (min 500 (length storyText)) @ ''...'',
               description = Some (substring0 storyText (min 500 (length storyText)) @ ''...''),
               characterName = name characterDNA',
               storyboardPrompt =
                 name characterDNA' @ '' begins an adventure, '' @ substring0 storyText 100\<rparr>],
           totalScenes = 1,
           character = characterDNA',
           emergencyFallback = True,
           fallbackParsed = False\<rparr>)"

definition successResult ::
  "string \<Rightarrow> characterDNA \<Rightarrow> nat \<Rightarrow> string \<Rightarrow> story \<Rightarrow> generationResult" where
  "successResult genre' characterDNA' attempt' storyText parsedStory =
     \<lparr>success = True,
      story = parsedStory,
      rawText = storyText,
      metadata =
        \<lparr>genre = genre',
         characterOf = name characterDNA',
         estimatedReadTime = (length storyText + 999) div 1000,
         sceneCount = length (scenes parsedStory),
         generatedBy = ''gemini-2.0-flash'',
         attempt = attempt'\<rparr>\<rparr>"

subsection \<open>The retry loop\<close>

text \<open>
  The loop \<open>for (attempt = 1; attempt <= maxRetries; attempt++)\<close>, entered at
  \<open>attempt\<close> with the service in state \<open>st\<close>. It returns how the call ends and the state
  in which it leaves the service.
\<close>

function attemptLoop ::
  "(string \<Rightarrow> characterDNA \<Rightarrow> 'e + story) \<Rightarrow> ('st \<Rightarrow> modelOutcome \<times> 'st) \<Rightarrow> string
     \<Rightarrow> characterDNA \<Rightarrow> nat \<Rightarrow> 'st \<Rightarrow> generationOutcome \<times> 'st" where
  "attemptLoop parser client genre' characterDNA' attempt' st =
     (if attempt' \<le> maxRetries then
        (case client st of
           (outcome, st') \<Rightarrow>
             (case raceWithTimeout outcome of
                Inr storyText \<Rightarrow>
                  (Returned (successResult genre' characterDNA' attempt' storyText
                     (parseOrEmergency parser storyText characterDNA')), st')
              | Inl message \<Rightarrow>
                  if attempt' = maxRetries \<or> \<not> isRetryableError message then
                    (Threw (''Story generation failed after '' @ numberToString attempt'
                            @ '' attempts: '' @ message), st')
                  else attemptLoop parser client genre' characterDNA' (attempt' + 1) st'))
      else (ReturnedUndefined, st))"
  by pat_completeness auto
termination
  by (relation "measure (\<lambda>(parser, client, genre', characterDNA', attempt', st).
        maxRetries + 1 - attempt')") auto

declare attemptLoop.simps [simp del]

definition generateStoryWith ::
  "(string \<Rightarrow> characterDNA \<Rightarrow> 'e + story) \<Rightarrow> ('st \<Rightarrow> modelOutcome \<times> 'st) \<Rightarrow> string
     \<Rightarrow> characterDNA \<Rightarrow> 'st \<Rightarrow> generationOutcome \<times> 'st" where
  "generateStoryWith parser client genre' characterDNA' st =
     attemptLoop parser client genre' characterDNA' 1 st"

definition tryParse :: "string \<Rightarrow> characterDNA \<Rightarrow> jsError + story" where
  "tryParse storyText characterDNA' = Inr (parseStoryIntoScenes storyText characterDNA')"

definition generateStory ::
  "('st \<Rightarrow> modelOutcome \<times> 'st) \<Rightarrow> string \<Rightarrow> characterDNA \<Rightarrow> 'st
     \<Rightarrow> generationOutcome \<times> 'st" where
  "generateStory client genre' characterDNA' st =
     generateStoryWith tryParse client genre' characterDNA' st"

section \<open>Notions used to state the properties\<close>

definition trimStart :: "string \<Rightarrow> string" where
  "trimStart s = dropWhile isWhiteSpace s"

definition trimEnd :: "string \<Rightarrow> string" where
  "trimEnd s = rev (dropWhile isWhiteSpace (rev s))"

definition blank :: "string \<Rightarrow> bool" where
  "blank s \<longleftrightarrow> (\<forall>c \<in> set s. isWhiteSpace c)"

text \<open>
  What one round of the primary loop takes from a part of the split: the title and the
  content, when both are non-empty. The loop then numbers the first four of them.
\<close>

definition usableSegment :: "string \<Rightarrow> (string \<times> string) option" where
  "usableSegment p =
     (let part = trim p in
      if part = [] then None
      else (case splitChar LF part of
              [] \<Rightarrow> None
            | l # lines \<Rightarrow>
                if trim l \<noteq> [] \<and> trim (join [LF] lines) \<noteq> []
                then Some (trim l, trim (join [LF] lines)) else None))"

definition usableSegments :: "string \<Rightarrow> (string \<times> string) list" where
  "usableSegments storyText = List.map_filter usableSegment (regexSplit SceneMarker storyText)"

fun numberedScenes :: "characterDNA \<Rightarrow> nat \<Rightarrow> (string \<times> string) list \<Rightarrow> scene list" where
  "numberedScenes c n [] = []"
| "numberedScenes c n (seg # segs) =
     primaryScene c n (fst seg) (snd seg) # numberedScenes c (n + 1) segs"

text \<open>
  A marker is a string that the marker pattern matches as a whole; a string is free of
  markers when the pattern matches at none of its positions. A well-marked scene is a
  marker followed by a title line that is not blank and a body that is not blank, with no
  further marker inside.
\<close>

definition isSceneMarker :: "string \<Rightarrow> bool" where
  "isSceneMarker m \<longleftrightarrow> matchSceneMarker m = Some []"

fun markerFree :: "string \<Rightarrow> bool" where
  "markerFree [] = True"
| "markerFree (c # cs) = (matchSceneMarker (c # cs) = None \<and> markerFree cs)"

definition wellMarkedScene :: "string \<Rightarrow> string \<Rightarrow> string \<Rightarrow> bool" where
  "wellMarkedScene m t b \<longleftrightarrow>
     isSceneMarker m \<and> LF \<notin> set t \<and> \<not> blank t \<and> \<not> blank b \<and> markerFree (t @ LF # b)"

definition idMatchesNumber :: "scene \<Rightarrow> bool" where
  "idMatchesNumber s \<longleftrightarrow> sceneId s = ''scene_'' @ numberToString (number s)"

text \<open>
  The four index ranges of \<open>splitTextIntoChunks\<close> cut the list of sentences into
  consecutive groups; the groups that are not empty become the chunks.
\<close>

definition chunkText :: "string list \<Rightarrow> string" where
  "chunkText g = trim (join ''. '' g) @ ''.''"

definition sentenceGroups :: "string list \<Rightarrow> string list list" where
  "sentenceGroups sentences =
     (let chunkSize = (length sentences + 3) div 4
      in filter (\<lambda>g. g \<noteq> [])
           (map (\<lambda>i. slice (i * chunkSize) (min (i * chunkSize + chunkSize) (length sentences))
                   sentences) [0..<4]))"

section \<open>Concrete inputs\<close>

definition mia :: characterDNA where
  "mia = \<lparr>name = ''Mia'', traits = Some [''brave'', ''curious'', ''kind''],
          characterDescription = None\<rparr>"

text \<open>A model service that plays a script, one outcome per call, and counts its calls.\<close>

definition scriptedClient :: "modelOutcome list \<Rightarrow> nat \<Rightarrow> modelOutcome \<times> nat" where
  "scriptedClient script n = (if n < length script then script ! n else Pending, n + 1)"

text \<open>A text of two lines without any scene marker, 82 code units long.\<close>

definition twoLineText :: string where
  "twoLineText = ''Once upon a time there was a fox.'' @ [LF]
     @ ''It ran! Did it stop? No. It kept going on and on''"

text \<open>Fifty blanks.\<close>

definition blankText :: string where
  "blankText = replicate 50 (CHR '' '')"

definition fourScenesText :: string where
  "fourScenesText = ''SCENE 1:'' @ ('' The Gate'' @ LF # ''Mia found a gate.'' @ [LF, LF])
     @ ''scene 2:'' @ ('' Inside'' @ LF # ''She went in!'' @ [LF, LF])
     @ ''Scene  3:'' @ (''Deeper'' @ LF # ''It was dark.'' @ [LF])
     @ ''SCENE 44:'' @ ('' Out'' @ LF # ''She left.'')"

definition tinyScenesText :: string where
  "tinyScenesText = ''SCENE 1:'' @ (''a'' @ LF # ''b'') @ ''SCENE 2:'' @ (''a'' @ LF # ''b'')
     @ ''SCENE 3:'' @ (''a'' @ LF # ''b'') @ ''SCENE 4:'' @ (''a'' @ LF # ''b'')"

definition sixScenesText :: string where
  "sixScenesText = ''SCENE 1:'' @ (''One'' @ LF # ''Mia woke up.'')
     @ ''SCENE 2:'' @ (''Two'' @ LF # ''Mia went out.'')
     @ ''SCENE 3:'' @ (''Three'' @ LF # ''Mia ran.'')
     @ ''SCENE 4:'' @ (''Four'' @ LF # ''Mia fell.'')
     @ ''SCENE 5:'' @ (''Five'' @ LF # ''Mia rose.'')
     @ ''SCENE 6:'' @ (''Six'' @ LF # ''Mia slept.'')"

text \<open>
  Five header lines without a colon behind the number, each followed by one line of
  content; a marker at the end of every line keeps the primary strategy from finding a
  part of two lines.
\<close>

definition fiveHeaderLinesText :: string where
  "fiveHeaderLinesText =
     ''SCENE 1 on SCENE 9:'' @ LF # ''Part 1. SCENE 9:'' @ LF #
     ''SCENE 2 on SCENE 9:'' @ LF # ''Part 2. SCENE 9:'' @ LF #
     ''SCENE 3 on SCENE 9:'' @ LF # ''Part 3. SCENE 9:'' @ LF #
     ''SCENE 4 on SCENE 9:'' @ LF # ''Part 4. SCENE 9:'' @ LF #
     ''SCENE 5 on SCENE 9:'' @ LF # ''Part 5. SCENE 9:'' @ [LF]"

definition headerLineText :: string where
  "headerLineText = ''SCENE 1 begins SCENE 2:'' @ [LF]
     @ ''A fox ran over the hill and far away from home.''"

definition paragraphText :: string where
  "paragraphText =
     ''Once upon a time there was a fox. It ran! Did it stop? No. It kept going on and on''"

text \<open>The same paragraph with a line feed in front and two behind.\<close>

definition framedParagraphText :: string where
  "framedParagraphText = LF # paragraphText @ [LF, LF]"

section \<open>Lemmas\<close>

subsection \<open>The retry loop\<close>

lemma toLowerCase_append: "toLowerCase (a @ b) = toLowerCase a @ toLowerCase b"
  by (simp add: toLowerCase_def)

lemma isRetryableError_iff:
  "isRetryableError message \<longleftrightarrow>
     (\<exists>k \<in> set retryableMessages. \<exists>pre post. toLowerCase message = pre @ k @ post)"
  by (simp add: isRetryableError_def Let_def list_ex_iff includesStr_def sublist_def)

lemma rate_limit_retryable: "isRetryableError (pre @ ''rate limit'' @ post)"
proof -
  have "toLowerCase ''rate limit'' = ''rate limit''"
    by code_simp
  then have "toLowerCase (pre @ ''rate limit'' @ post)
      = toLowerCase pre @ ''rate limit'' @ toLowerCase post"
    by (simp only: toLowerCase_append)
  moreover have "''rate limit'' \<in> set retryableMessages"
    by (simp add: retryableMessages_def)
  ultimately show ?thesis
    unfolding isRetryableError_iff by blast
qed

text \<open>A timer that fires is retried like any transient failure.\<close>

lemma timeout_retryable: "isRetryableError timeoutMessage"
  by code_simp

text \<open>The three ways in which one round of the loop goes on.\<close>

lemma attemptLoop_retry:
  assumes "attempt' < maxRetries" and "client st = (outcome, st')"
    and "raceWithTimeout outcome = Inl message" and "isRetryableError message"
  shows "attemptLoop parser client g c attempt' st
       = attemptLoop parser client g c (attempt' + 1) st'"
  using assms by (subst attemptLoop.simps) simp

lemma attemptLoop_success:
  assumes "attempt' \<le> maxRetries" and "client st = (outcome, st')"
    and "raceWithTimeout outcome = Inr storyText"
  shows "attemptLoop parser client g c attempt' st
       = (Returned (successResult g c attempt' storyText
            (parseOrEmergency parser storyText c)), st')"
  using assms by (subst attemptLoop.simps) simp

lemma attemptLoop_terminal:
  assumes "attempt' \<le> maxRetries" and "client st = (outcome, st')"
    and "raceWithTimeout outcome = Inl message"
    and "attempt' = maxRetries \<or> \<not> isRetryableError message"
  shows "attemptLoop parser client g c attempt' st
       = (Threw (''Story generation failed after '' @ numberToString attempt'
                 @ '' attempts: '' @ message), st')"
  using assms by (subst attemptLoop.simps) auto

lemma attemptLoop_Returned:
  "attemptLoop parser client g c a st = (Returned r, st') \<Longrightarrow>
     \<exists>a' storyText. r = successResult g c a' storyText (parseOrEmergency parser storyText c)"
proof (induction parser client g c a st rule: attemptLoop.induct)
  case (1 parser client g c a st)
  then show ?case
    by (subst (asm) (2) attemptLoop.simps) (auto split: if_splits prod.splits sum.splits)
qed

text \<open>The loop entered at attempt 1 never runs out: \<open>generateStory\<close> returns or throws.\<close>

lemma attemptLoop_not_undefined:
  "1 \<le> a \<Longrightarrow> a \<le> maxRetries \<Longrightarrow>
     fst (attemptLoop parser client g c a st) \<noteq> ReturnedUndefined"
proof (induction parser client g c a st rule: attemptLoop.induct)
  case (1 parser client g c a st)
  show ?case
  proof (cases "client st")
    case (Pair outcome st')
    show ?thesis
    proof (cases "raceWithTimeout outcome")
      case (Inl message)
      show ?thesis
      proof (cases "a = maxRetries \<or> \<not> isRetryableError message")
        case True
        with 1 Pair Inl show ?thesis
          by (subst attemptLoop.simps) auto
      next
        case False
        with 1 Pair Inl show ?thesis
          by (subst attemptLoop.simps) auto
      qed
    next
      case (Inr storyText)
      with 1 Pair show ?thesis
        by (subst attemptLoop.simps) auto
    qed
  qed
qed

lemma generateStory_not_undefined:
  "fst (generateStory client g c st) \<noteq> ReturnedUndefined"
  unfolding generateStory_def generateStoryWith_def
  by (rule attemptLoop_not_undefined) (simp_all add: maxRetries_def)

subsection \<open>String operations\<close>

lemma splitChar_nonempty: "splitChar sep s \<noteq> []"
  by (induction s) (auto split: list.splits)

lemma regexSplit_nonempty: "regexSplit p s \<noteq> []"
  by (induction p s rule: regexSplit.induct) (auto split: option.splits list.splits)

lemma join_splitChar: "join [sep] (splitChar sep s) = s"
proof (induction s)
  case Nil
  show ?case by simp
next
  case (Cons c s)
  show ?case
  proof (cases "c = sep")
    case True
    with Cons show ?thesis
      by (cases "splitChar sep s") (auto simp: splitChar_nonempty)
  next
    case False
    obtain l ls where ls: "splitChar sep s = l # ls"
      by (cases "splitChar sep s") (auto simp: splitChar_nonempty)
    with Cons False show ?thesis
      by (cases ls) auto
  qed
qed

lemma splitChar_no_sep: "sep \<notin> set s \<Longrightarrow> splitChar sep s = [s]"
  by (induction s) auto

lemma splitChar_append_sep:
  "sep \<notin> set t \<Longrightarrow> splitChar sep (t @ sep # b) = t # splitChar sep b"
  by (induction t) auto

lemma trim_eq: "trim s = trimEnd (trimStart s)"
  by (simp add: trim_def trimStart_def trimEnd_def)

lemma dropWhile_all_iff: "(\<forall>x \<in> set (dropWhile P s). P x) \<longleftrightarrow> (\<forall>x \<in> set s. P x)"
proof
  assume a: "\<forall>x \<in> set (dropWhile P s). P x"
  have "dropWhile P s = []"
  proof (rule ccontr)
    assume ne: "dropWhile P s \<noteq> []"
    then have "\<not> P (hd (dropWhile P s))"
      by (rule hd_dropWhile)
    moreover from ne have "hd (dropWhile P s) \<in> set (dropWhile P s)"
      by simp
    ultimately show False
      using a by blast
  qed
  then show "\<forall>x \<in> set s. P x"
    by (simp add: dropWhile_eq_Nil_conv)
next
  assume "\<forall>x \<in> set s. P x"
  then show "\<forall>x \<in> set (dropWhile P s). P x"
    by (auto dest: set_dropWhileD)
qed

lemma trim_empty_iff: "trim s = [] \<longleftrightarrow> blank s"
  by (simp add: trim_def blank_def dropWhile_eq_Nil_conv dropWhile_all_iff)

lemma trimStart_append: "\<not> blank t \<Longrightarrow> trimStart (t @ u) = trimStart t @ u"
  by (auto simp: trimStart_def blank_def dropWhile_append1)

lemma trimEnd_append: "\<not> blank b \<Longrightarrow> trimEnd (u @ b) = u @ trimEnd b"
  by (auto simp: trimEnd_def blank_def dropWhile_append1)

lemma blank_trimStart: "blank (trimStart s) \<longleftrightarrow> blank s"
  by (simp add: blank_def trimStart_def dropWhile_all_iff)

lemma blank_trimEnd: "blank (trimEnd s) \<longleftrightarrow> blank s"
proof -
  have "blank (trimEnd s) \<longleftrightarrow> (\<forall>x \<in> set (dropWhile isWhiteSpace (rev s)). isWhiteSpace x)"
    by (simp add: blank_def trimEnd_def)
  also have "\<dots> \<longleftrightarrow> (\<forall>x \<in> set (rev s). isWhiteSpace x)"
    by (rule dropWhile_all_iff)
  finally show ?thesis
    by (simp add: blank_def)
qed

lemma dropWhile_takeWhile_append: "dropWhile P (takeWhile P s @ u) = dropWhile P u"
  by (induction s) auto

lemma trimStart_trimEnd: "trimStart (trimEnd s) = trimEnd (trimStart s)"
proof (cases "blank s")
  case True
  then have "trimStart s = []" "trimEnd s = []"
    by (auto simp: trimStart_def trimEnd_def blank_def)
  moreover have "trimStart [] = []" "trimEnd [] = []"
    by (simp_all add: trimStart_def trimEnd_def)
  ultimately show ?thesis
    by (simp only:)
next
  case False
  have s: "s = takeWhile isWhiteSpace s @ trimStart s"
    by (simp add: trimStart_def)
  have nb: "\<not> blank (trimStart s)"
    using False by (simp add: blank_trimStart)
  have "trimEnd s = takeWhile isWhiteSpace s @ trimEnd (trimStart s)"
    by (subst s) (rule trimEnd_append [OF nb])
  moreover have "trimStart (takeWhile isWhiteSpace s @ trimEnd (trimStart s))
      = trimStart (trimEnd (trimStart s))"
    by (simp add: trimStart_def dropWhile_takeWhile_append)
  moreover have "trimStart (trimEnd (trimStart s)) = trimEnd (trimStart s)"
  proof -
    from nb have "trimStart s \<noteq> []"
      by (auto simp: blank_def)
    then have h: "\<not> isWhiteSpace (hd (trimStart s))"
      unfolding trimStart_def by (rule hd_dropWhile)
    from nb have "\<not> blank (trimEnd (trimStart s))"
      by (simp add: blank_trimEnd)
    then have ne: "trimEnd (trimStart s) \<noteq> []"
      by (auto simp: blank_def)
    have "prefix (trimEnd (trimStart s)) (trimStart s)"
      by (metis takeWhile_dropWhile_id prefixI rev_append rev_rev_ident trimEnd_def)
    then obtain zs where "trimStart s = trimEnd (trimStart s) @ zs"
      by (auto simp: prefix_def)
    with ne have "hd (trimEnd (trimStart s)) = hd (trimStart s)"
      by (metis hd_append2)
    with h ne show ?thesis
      by (cases "trimEnd (trimStart s)") (auto simp: trimStart_def)
  qed
  ultimately show ?thesis
    by simp
qed

lemma trim_trimStart: "trim (trimStart s) = trim s"
  by (simp add: trim_eq) (simp add: trimStart_def)

lemma trim_trimEnd: "trim (trimEnd s) = trim s"
  by (simp add: trim_eq trimStart_trimEnd) (simp add: trimEnd_def)

lemma trim_title_body:
  assumes "\<not> blank t" and "\<not> blank b"
  shows "trim (t @ sep # b) = trimStart t @ sep # trimEnd b"
proof -
  have "trimStart (t @ sep # b) = trimStart t @ sep # b"
    using assms(1) by (rule trimStart_append)
  moreover have "trimEnd ((trimStart t @ [sep]) @ b) = (trimStart t @ [sep]) @ trimEnd b"
    using assms(2) by (rule trimEnd_append)
  ultimately show ?thesis
    by (simp add: trim_eq)
qed

subsection \<open>The primary strategy as a function of the segments\<close>

lemma length_numberedScenes [simp]: "length (numberedScenes c n segs) = length segs"
  by (induction segs arbitrary: n) auto

lemma primaryLoop_eq:
  "primaryLoop c parts scenes' =
     Inr (scenes' @ numberedScenes c (length scenes' + 1)
            (take (4 - length scenes') (List.map_filter usableSegment parts)))"
proof (induction parts arbitrary: scenes')
  case Nil
  show ?case by (simp add: List.map_filter_simps)
next
  case (Cons p parts)
  show ?case
  proof (cases "length scenes' < 4")
    case False
    then show ?thesis by simp
  next
    case True
    then obtain k where k: "4 - length scenes' = Suc k"
      by (cases "4 - length scenes'") auto
    show ?thesis
    proof (cases "usableSegment p")
      case None
      then have "primaryLoop c (p # parts) scenes' = primaryLoop c parts scenes'"
        using True
        by (auto simp: usableSegment_def Let_def splitChar_nonempty split: list.splits if_splits)
      with None Cons show ?thesis
        by (simp add: List.map_filter_simps)
    next
      case (Some seg)
      then have "primaryLoop c (p # parts) scenes'
          = primaryLoop c parts
              (scenes' @ [primaryScene c (length scenes' + 1) (fst seg) (snd seg)])"
        using True
        by (auto simp: usableSegment_def Let_def split: list.splits if_splits)
      moreover have "4 - length (scenes' @ [primaryScene c (length scenes' + 1) (fst seg) (snd seg)]) = k"
        using k by simp
      ultimately show ?thesis
        using Some k by (simp add: Cons List.map_filter_simps)
    qed
  qed
qed

lemma usableSegment_blank: "trim p = [] \<Longrightarrow> usableSegment p = None"
  by (simp add: usableSegment_def)

lemma primaryParse_eq:
  "primaryParse storyText c = Inr (numberedScenes c 1 (take 4 (usableSegments storyText)))"
proof (cases "regexSplit SceneMarker storyText")
  case Nil
  then show ?thesis
    by (simp add: regexSplit_nonempty)
next
  case (Cons p0 ps)
  then show ?thesis
    by (simp add: primaryParse_def usableSegments_def primaryLoop_eq List.map_filter_simps
        usableSegment_blank)
qed

lemma padScenes_eq:
  "padScenes c scenes' = scenes' @ map (paddingScene c) [length scenes' + 1 ..< 5]"
proof (induction c scenes' rule: padScenes.induct)
  case (1 c scenes')
  show ?case
  proof (cases "length scenes' < 4")
    case True
    then have "[length scenes' + 1 ..< 5] = (length scenes' + 1) # [length scenes' + 2 ..< 5]"
      by (simp add: upt_conv_Cons)
    with 1 True show ?thesis
      by (subst padScenes.simps) simp
  next
    case False
    then show ?thesis
      by (subst padScenes.simps) simp
  qed
qed

lemma parse_primary:
  assumes "50 \<le> length storyText" and "usableSegments storyText \<noteq> []"
  shows "parseStoryIntoScenes storyText c =
     \<lparr>title = storyTitle c,
      scenes = numberedScenes c 1 (take 4 (usableSegments storyText))
        @ map (paddingScene c) [length (take 4 (usableSegments storyText)) + 1 ..< 5],
      totalScenes = 4,
      character = c,
      emergencyFallback = False,
      fallbackParsed = False\<rparr>"
proof -
  define ps where "ps = numberedScenes c 1 (take 4 (usableSegments storyText))"
  have ne: "ps \<noteq> []"
    using assms(2) unfolding ps_def by (cases "usableSegments storyText") auto
  have len: "length ps = length (take 4 (usableSegments storyText))"
    unfolding ps_def by (rule length_numberedScenes)
  then have le: "length ps \<le> 4"
    by simp
  have norm: "(if length ps > 4 then take 4 ps
         else if length ps < 4 then padScenes c ps else ps)
      = ps @ map (paddingScene c) [length ps + 1 ..< 5]"
    using le by (auto simp: padScenes_eq)
  have "primaryParse storyText c = Inr ps"
    unfolding ps_def by (rule primaryParse_eq)
  then have "parseStoryIntoScenes storyText c =
     \<lparr>title = storyTitle c,
      scenes = (if length ps > 4 then take 4 ps
         else if length ps < 4 then padScenes c ps else ps),
      totalScenes = 4,
      character = c,
      emergencyFallback = False,
      fallbackParsed = False\<rparr>"
    using assms(1) ne by (auto simp: parseStoryIntoScenes_def)
  then show ?thesis
    unfolding norm unfolding len unfolding ps_def .
qed

lemma parse_fallback:
  assumes "50 \<le> length storyText" and "usableSegments storyText = []"
  shows "parseStoryIntoScenes storyText c = fallbackParseStory storyText c"
  using assms by (auto simp: parseStoryIntoScenes_def primaryParse_eq)

subsection \<open>Scenes of the primary strategy\<close>

lemma sceneIdOf_1: "sceneIdOf 1 = ''scene_1''"
  unfolding sceneIdOf_def by (subst numberToString.simps) (simp add: digitChar_def)

text \<open>The \<open>catch\<close> around the primary strategy is never entered.\<close>

lemma primaryParse_never_throws: "primaryParse storyText c \<noteq> Inl e"
  by (simp add: primaryParse_eq)

lemma paddingScene_fields [simp]:
  "sceneId (paddingScene c n) = sceneIdOf n"
  "number (paddingScene c n) = n"
  "sceneTitle (paddingScene c n) = ''Scene '' @ numberToString n"
  "content (paddingScene c n)
     = name c @ '' continues their adventure with determination and courage.''"
  "description (paddingScene c n) = None"
  "characterName (paddingScene c n) = name c"
  by (simp_all add: paddingScene_def Let_def)

lemma primaryScene_fields [simp]:
  "sceneId (primaryScene c n t b) = sceneIdOf n"
  "number (primaryScene c n t b) = n"
  "sceneTitle (primaryScene c n t b) = t"
  "content (primaryScene c n t b) = b"
  "description (primaryScene c n t b) = Some b"
  "characterName (primaryScene c n t b) = name c"
  by (simp_all add: primaryScene_def)

lemma usableSegments_twoLineText: "usableSegments twoLineText
   = [(''Once upon a time there was a fox.'', ''It ran! Did it stop? No. It kept going on and on'')]"
  by code_simp

lemma length_twoLineText: "length twoLineText = 82"
  by code_simp

subsection \<open>Texts built from marked scenes\<close>

lemma span_append:
  "dropWhile P xs \<noteq> [] \<Longrightarrow>
     takeWhile P (xs @ ys) = takeWhile P xs \<and> dropWhile P (xs @ ys) = dropWhile P xs @ ys"
  by (induction xs) auto

lemma span_append_all:
  "dropWhile P xs = [] \<Longrightarrow> \<not> P y \<Longrightarrow>
     takeWhile P (xs @ y # ys) = xs \<and> dropWhile P (xs @ y # ys) = y # ys"
  by (induction xs) (auto split: if_splits)

lemma matchIgnoreCase_append:
  "matchIgnoreCase p x = Some r \<Longrightarrow> matchIgnoreCase p (x @ y) = Some (r @ y)"
  by (induction p x rule: matchIgnoreCase.induct) (auto split: if_splits)

lemma matchIgnoreCase_straddle:
  "matchIgnoreCase p x = None \<Longrightarrow> \<forall>q \<in> set p. toLowerChar q \<noteq> toLowerChar s \<Longrightarrow>
     matchIgnoreCase p (x @ s # y) = None"
  by (induction p x rule: matchIgnoreCase.induct) (auto split: if_splits)

lemma toLowerChar_S: "toLowerChar (CHR ''S'') = CHR ''s''"
  by code_simp

lemma CENE_no_s: "\<forall>q \<in> set ''CENE''. toLowerChar q \<noteq> CHR ''s''"
  by code_simp

lemma matchScene_straddle:
  assumes "matchIgnoreCase ''SCENE'' x = None" and "x \<noteq> []" and "toLowerChar s = CHR ''s''"
  shows "matchIgnoreCase ''SCENE'' (x @ s # y) = None"
proof -
  from assms(2) obtain c cs where x: "x = c # cs"
    by (cases x) auto
  show ?thesis
  proof (cases "toLowerChar c = toLowerChar (CHR ''S'')")
    case False
    then show ?thesis by (simp add: x)
  next
    case True
    with assms(1) have "matchIgnoreCase ''CENE'' cs = None"
      by (simp add: x)
    then have "matchIgnoreCase ''CENE'' (cs @ s # y) = None"
      using CENE_no_s assms(3) by (intro matchIgnoreCase_straddle) simp_all
    with True show ?thesis
      by (simp add: x)
  qed
qed

lemma matchScene_first:
  "matchIgnoreCase ''SCENE'' x = Some r \<Longrightarrow> \<exists>s x'. x = s # x' \<and> toLowerChar s = CHR ''s''"
  by (cases x) (auto simp: toLowerChar_S split: if_splits)

lemma s_not_space_digit_colon:
  "toLowerChar s = CHR ''s'' \<Longrightarrow> \<not> isWhiteSpace s \<and> \<not> isDigit s \<and> s \<noteq> CHR '':''"
  by (auto simp: isWhiteSpace_def isDigit_def toLowerChar_def upperCaseChars_def lowerCaseChars_def)

lemma matchSceneHeader_append:
  assumes "matchSceneHeader x = Some (c # r)"
  shows "matchSceneHeader (x @ y) = Some (c # r @ y)"
proof -
  from assms obtain r1 where r1: "matchIgnoreCase ''SCENE'' x = Some r1"
    and ws: "takeWhile isWhiteSpace r1 \<noteq> []"
    and ds: "takeWhile isDigit (dropWhile isWhiteSpace r1) \<noteq> []"
    and r: "dropWhile isDigit (dropWhile isWhiteSpace r1) = c # r"
    by (auto simp: matchSceneHeader_def Let_def split: option.splits if_splits)
  from r have ne2: "dropWhile isDigit (dropWhile isWhiteSpace r1) \<noteq> []"
    by simp
  then have ne1: "dropWhile isWhiteSpace r1 \<noteq> []"
    by (metis dropWhile.simps(1))
  have 1: "matchIgnoreCase ''SCENE'' (x @ y) = Some (r1 @ y)"
    using r1 by (rule matchIgnoreCase_append)
  note 2 = span_append [OF ne1, of y]
  note 3 = span_append [OF ne2, of y]
  show ?thesis
    using ws ds r by (simp add: matchSceneHeader_def 1 2 3)
qed

lemma matchSceneMarker_append:
  assumes "matchSceneMarker x = Some r"
  shows "matchSceneMarker (x @ y) = Some (r @ y)"
proof -
  from assms have "matchSceneHeader x = Some (CHR '':'' # r)"
    by (auto simp: matchSceneMarker_def split: option.splits list.splits if_splits)
  then have "matchSceneHeader (x @ y) = Some (CHR '':'' # r @ y)"
    by (rule matchSceneHeader_append)
  then show ?thesis
    by (simp add: matchSceneMarker_def)
qed

lemma matchSceneMarker_first:
  "matchSceneMarker x = Some r \<Longrightarrow> \<exists>s x'. x = s # x' \<and> toLowerChar s = CHR ''s''"
  by (auto simp: matchSceneMarker_def matchSceneHeader_def
      split: option.splits list.splits if_splits dest: matchScene_first)

lemma matchSceneMarker_straddle:
  assumes none: "matchSceneMarker x = None" and x: "x \<noteq> []" and s: "toLowerChar s = CHR ''s''"
  shows "matchSceneMarker (x @ s # y) = None"
proof (cases "matchIgnoreCase ''SCENE'' x")
  case None
  then have "matchIgnoreCase ''SCENE'' (x @ s # y) = None"
    using x s by (rule matchScene_straddle)
  then show ?thesis
    by (simp add: matchSceneMarker_def matchSceneHeader_def)
next
  case (Some r1)
  then have 1: "matchIgnoreCase ''SCENE'' (x @ s # y) = Some (r1 @ s # y)"
    by (rule matchIgnoreCase_append)
  note cls = s_not_space_digit_colon [OF s]
  show ?thesis
  proof (cases "dropWhile isWhiteSpace r1 = []")
    case True
    from span_append_all [OF True, of s y] cls
    have "dropWhile isWhiteSpace (r1 @ s # y) = s # y"
      by simp
    with cls show ?thesis
      by (simp add: matchSceneMarker_def matchSceneHeader_def 1)
  next
    case False
    note 2 = span_append [OF False, of "s # y"]
    show ?thesis
    proof (cases "dropWhile isDigit (dropWhile isWhiteSpace r1) = []")
      case True
      from span_append_all [OF True, of s y] cls
      have "dropWhile isDigit (dropWhile isWhiteSpace r1 @ s # y) = s # y"
        by simp
      with cls show ?thesis
        by (simp add: matchSceneMarker_def matchSceneHeader_def Let_def 1 2)
    next
      case False
      note 3 = span_append [OF False, of "s # y"]
      from False obtain d ds where d: "dropWhile isDigit (dropWhile isWhiteSpace r1) = d # ds"
        by (cases "dropWhile isDigit (dropWhile isWhiteSpace r1)") auto
      from none Some d show ?thesis
        by (auto simp: matchSceneMarker_def matchSceneHeader_def 1 2 3
            split: option.splits list.splits if_splits)
    qed
  qed
qed

lemma regexSplit_markerFree: "markerFree x \<Longrightarrow> regexSplit SceneMarker x = [x]"
  by (induction x) auto

lemma regexSplit_marker:
  assumes "markerFree x" and "isSceneMarker m"
  shows "regexSplit SceneMarker (x @ m @ rest) = x # regexSplit SceneMarker rest"
proof -
  from assms(2) have "matchSceneMarker (m @ rest) = Some ([] @ rest)"
    unfolding isSceneMarker_def by (rule matchSceneMarker_append)
  then have m: "matchSceneMarker (m @ rest) = Some rest"
    by simp
  from assms(2) obtain s m' where s: "m = s # m'" "toLowerChar s = CHR ''s''"
    unfolding isSceneMarker_def by (blast dest: matchSceneMarker_first)
  from assms(1) show ?thesis
  proof (induction x)
    case Nil
    with m s show ?case by simp
  next
    case (Cons c x)
    then have "matchSceneMarker ((c # x) @ s # m' @ rest) = None"
      using s(2) by (intro matchSceneMarker_straddle) simp_all
    with Cons s show ?case
      by simp
  qed
qed

lemma blank_markerFree: "blank x \<Longrightarrow> markerFree x"
proof (induction x)
  case Nil
  show ?case by simp
next
  case (Cons c x)
  then have "isWhiteSpace c" and "blank x"
    by (simp_all add: blank_def)
  have "matchSceneMarker (c # x) = None"
  proof (cases "matchSceneMarker (c # x)")
    case (Some r)
    then have "toLowerChar c = CHR ''s''"
      by (auto dest: matchSceneMarker_first)
    with \<open>isWhiteSpace c\<close> show ?thesis
      by (simp add: s_not_space_digit_colon)
  qed simp
  with Cons \<open>blank x\<close> show ?case
    by simp
qed

lemma usableSegment_title_body:
  assumes "LF \<notin> set t" and "\<not> blank t" and "\<not> blank b"
  shows "usableSegment (t @ LF # b) = Some (trim t, trim b)"
proof -
  have 1: "trim (t @ LF # b) = trimStart t @ LF # trimEnd b"
    using assms(2,3) by (rule trim_title_body)
  have "LF \<notin> set (trimStart t)"
    using assms(1) by (auto simp: trimStart_def dest: set_dropWhileD)
  then have 2: "splitChar LF (trimStart t @ LF # trimEnd b) = trimStart t # splitChar LF (trimEnd b)"
    by (rule splitChar_append_sep)
  have 3: "trim t \<noteq> []" "trim b \<noteq> []"
    using assms(2,3) by (simp_all add: trim_empty_iff)
  show ?thesis
    using 3 by (simp add: usableSegment_def 1 2 join_splitChar trim_trimStart trim_trimEnd)
qed

lemma set_trim: "set (trim s) \<subseteq> set s"
  by (auto simp: trim_def dest!: set_dropWhileD)

lemma usableSegment_single_line: "LF \<notin> set (trim p) \<Longrightarrow> usableSegment p = None"
proof -
  assume "LF \<notin> set (trim p)"
  then have "splitChar LF (trim p) = [trim p]"
    by (rule splitChar_no_sep)
  then show ?thesis
    by (simp add: usableSegment_def trim_def)
qed

lemma usableSegments_four:
  assumes decomp: "storyText = pre @ m1 @ (t1 @ LF # b1) @ m2 @ (t2 @ LF # b2)
                   @ m3 @ (t3 @ LF # b3) @ m4 @ (t4 @ LF # b4)"
    and pre: "markerFree pre"
    and w1: "wellMarkedScene m1 t1 b1" and w2: "wellMarkedScene m2 t2 b2"
    and w3: "wellMarkedScene m3 t3 b3" and w4: "wellMarkedScene m4 t4 b4"
  shows "usableSegments storyText
       = (case usableSegment pre of None \<Rightarrow> [] | Some seg \<Rightarrow> [seg])
         @ [(trim t1, trim b1), (trim t2, trim b2), (trim t3, trim b3), (trim t4, trim b4)]"
proof -
  have "regexSplit SceneMarker storyText
      = [pre, t1 @ LF # b1, t2 @ LF # b2, t3 @ LF # b3, t4 @ LF # b4]"
    unfolding decomp using pre w1 w2 w3 w4
    by (simp only: wellMarkedScene_def regexSplit_marker regexSplit_markerFree)
  then show ?thesis
    using w1 w2 w3 w4
    by (cases "usableSegment pre")
      (simp_all add: usableSegments_def List.map_filter_simps wellMarkedScene_def
        usableSegment_title_body)
qed

lemma fields_numberedScenes:
  "map (\<lambda>s. (sceneTitle s, content s)) (numberedScenes c n segs) = segs"
  by (induction segs arbitrary: n) simp_all

lemma numberToString_digit: "n < 10 \<Longrightarrow> numberToString n = [digitChar n]"
  by (subst numberToString.simps) simp

lemma sceneIdOf_small:
  "sceneIdOf (Suc 0) = ''scene_1''" "sceneIdOf 2 = ''scene_2''"
  "sceneIdOf 3 = ''scene_3''" "sceneIdOf 4 = ''scene_4''"
  by (simp_all add: sceneIdOf_def numberToString_digit digitChar_def)

lemma number_numberedScenes:
  "map number (numberedScenes c n segs) = [n ..< n + length segs]"
  by (induction segs arbitrary: n) (auto simp: upt_rec)

lemma ids_numberedScenes: "\<forall>s \<in> set (numberedScenes c n segs). idMatchesNumber s"
  by (induction segs arbitrary: n) (auto simp: idMatchesNumber_def sceneIdOf_def)

lemma flushScene_ids:
  "\<forall>s \<in> set scs. idMatchesNumber s \<Longrightarrow> \<forall>s. cur = Some s \<longrightarrow> idMatchesNumber s \<Longrightarrow>
     \<forall>s \<in> set (flushScene scs cur). idMatchesNumber s"
  by (auto simp: flushScene_def split: option.splits)

lemma scanLines_ids:
  "scanLines c ls (scs, cur, cnt) = (scs', cur', cnt') \<Longrightarrow>
   \<forall>s \<in> set scs. idMatchesNumber s \<Longrightarrow> \<forall>s. cur = Some s \<longrightarrow> idMatchesNumber s \<Longrightarrow>
     (\<forall>s \<in> set scs'. idMatchesNumber s) \<and> (\<forall>s. cur' = Some s \<longrightarrow> idMatchesNumber s)"
proof (induction ls arbitrary: scs cur cnt)
  case Nil
  then show ?case by simp
next
  case (Cons line ls)
  show ?case
  proof (cases "isSceneHeader (trim line)")
    case True
    let ?new = "\<lparr>sceneId = sceneIdOf (cnt + 1), number = cnt + 1,
      sceneTitle = orElse (stripSceneMarker (stripSceneMarker (trim line)))
        (''Scene '' @ numberToString (cnt + 1)),
      content = [], description = Some [], characterName = name c, storyboardPrompt = []\<rparr>"
    from Cons.prems(1) True
    have run: "scanLines c ls (flushScene scs cur, Some ?new, cnt + 1) = (scs', cur', cnt')"
      by (simp add: Let_def)
    have "\<forall>s \<in> set (flushScene scs cur). idMatchesNumber s"
      using Cons.prems(2,3) by (rule flushScene_ids)
    moreover have "\<forall>s. Some ?new = Some s \<longrightarrow> idMatchesNumber s"
      by (simp add: idMatchesNumber_def sceneIdOf_def)
    ultimately show ?thesis
      by (rule Cons.IH [OF run])
  next
    case False
    show ?thesis
    proof (cases cur)
      case None
      with Cons.prems(1) False have "scanLines c ls (scs, cur, cnt) = (scs', cur', cnt')"
        by (simp add: Let_def)
      then show ?thesis
        using Cons.prems(2,3) by (rule Cons.IH)
    next
      case (Some s0)
      show ?thesis
      proof (cases "trim line = []")
        case True
        with Cons.prems(1) False Some have "scanLines c ls (scs, cur, cnt) = (scs', cur', cnt')"
          by (simp add: Let_def)
        then show ?thesis
          using Cons.prems(2,3) by (rule Cons.IH)
      next
        case ne: False
        let ?upd = "s0\<lparr>content := content s0 @ (if content s0 \<noteq> [] then '' '' else []) @ trim line\<rparr>"
        from Cons.prems(1) False Some ne
        have run: "scanLines c ls (scs, Some ?upd, cnt) = (scs', cur', cnt')"
          by (simp add: Let_def)
        have "\<forall>s. Some ?upd = Some s \<longrightarrow> idMatchesNumber s"
          using Cons.prems(3) Some by (simp add: idMatchesNumber_def)
        with Cons.prems(2) show ?thesis
          by (rule Cons.IH [OF run])
      qed
    qed
  qed
qed

lemma lineScanScenes_ids: "\<forall>s \<in> set (lineScanScenes storyText c). idMatchesNumber s"
proof -
  obtain scs cur cnt where run:
    "scanLines c (filter (\<lambda>line. trim line \<noteq> []) (splitChar LF storyText)) ([], None, 0)
       = (scs, cur, cnt)"
    by (metis prod_cases3)
  from scanLines_ids [OF run]
  have "(\<forall>s \<in> set scs. idMatchesNumber s) \<and> (\<forall>s. cur = Some s \<longrightarrow> idMatchesNumber s)"
    by simp
  then have "\<forall>s \<in> set (flushScene scs cur). idMatchesNumber s"
    by (intro flushScene_ids) simp_all
  then show ?thesis
    by (simp add: lineScanScenes_def run)
qed

lemma chunkScenes_ids: "\<forall>s \<in> set (chunkScenes c i chunks). idMatchesNumber s"
  by (induction chunks arbitrary: i) (auto simp: idMatchesNumber_def chunkScene_def sceneIdOf_def)

lemma refreshScene_ids: "idMatchesNumber s \<Longrightarrow> idMatchesNumber (refreshScene c s)"
  by (simp add: idMatchesNumber_def refreshScene_def)

lemma fallbackParseStory_ids:
  "\<forall>s \<in> set (scenes (fallbackParseStory storyText c)). idMatchesNumber s"
  using lineScanScenes_ids [of storyText c] chunkScenes_ids [of c 0 "splitTextIntoChunks storyText 4"]
  by (auto simp: fallbackParseStory_def Let_def refreshScene_ids dest!: in_set_takeD)

lemma parse_ids: "\<forall>s \<in> set (scenes (parseStoryIntoScenes storyText c)). idMatchesNumber s"
proof (cases "storyText = [] \<or> length storyText < 50")
  case True
  then show ?thesis
    by (auto simp: parseStoryIntoScenes_def createEmergencyFallback_def Let_def idMatchesNumber_def
        numberToString_digit digitChar_def)
next
  case False
  then have len: "50 \<le> length storyText"
    by simp
  show ?thesis
  proof (cases "usableSegments storyText = []")
    case True
    with len show ?thesis
      by (simp add: parse_fallback fallbackParseStory_ids)
  next
    case False
    have "idMatchesNumber (paddingScene c n)" for n
      by (simp add: idMatchesNumber_def sceneIdOf_def)
    with ids_numberedScenes [of c 1 "take 4 (usableSegments storyText)"] show ?thesis
      by (auto simp: parse_primary [OF len False])
  qed
qed

lemma parse_numbers_unflagged:
  assumes "\<not> emergencyFallback (parseStoryIntoScenes storyText c)"
    and "\<not> fallbackParsed (parseStoryIntoScenes storyText c)"
  shows "map number (scenes (parseStoryIntoScenes storyText c)) = [1, 2, 3, 4]"
proof -
  have len: "50 \<le> length storyText"
  proof (rule ccontr)
    assume "\<not> 50 \<le> length storyText"
    then have "emergencyFallback (parseStoryIntoScenes storyText c)"
      by (simp add: parseStoryIntoScenes_def createEmergencyFallback_def Let_def)
    with assms(1) show False ..
  qed
  have ne: "usableSegments storyText \<noteq> []"
  proof
    assume "usableSegments storyText = []"
    with len have "fallbackParsed (parseStoryIntoScenes storyText c)"
      by (simp add: parse_fallback fallbackParseStory_def Let_def)
    with assms(2) show False ..
  qed
  define k where "k = length (take 4 (usableSegments storyText))"
  have k: "k \<le> 4"
    by (simp add: k_def)
  have "map number (scenes (parseStoryIntoScenes storyText c)) = [1 ..< 1 + k] @ [k + 1 ..< 5]"
    by (simp add: parse_primary [OF len ne] number_numberedScenes k_def comp_def)
  also have "\<dots> = [1 ..< 5]"
  proof -
    have "[1 ..< (k + 1) + (4 - k)] = [1 ..< k + 1] @ [k + 1 ..< (k + 1) + (4 - k)]"
      by (rule upt_add_eq_append) simp
    moreover have "(k + 1) + (4 - k) = 5"
      using k by simp
    ultimately show ?thesis
      by (simp add: add.commute)
  qed
  finally show ?thesis
    by (simp add: upt_rec)
qed

lemma usableSegments_sixScenesText:
  "usableSegments sixScenesText
     = [(''One'', ''Mia woke up.''), (''Two'', ''Mia went out.''), (''Three'', ''Mia ran.''),
        (''Four'', ''Mia fell.''), (''Five'', ''Mia rose.''), (''Six'', ''Mia slept.'')]"
  by code_simp

lemma scan_fiveHeaderLinesText:
  "50 \<le> length fiveHeaderLinesText"
  "usableSegments fiveHeaderLinesText = []"
  "map number (lineScanScenes fiveHeaderLinesText mia) = [1, 2, 3, 4, 5]"
  by code_simp+

subsection \<open>Texts of a single line\<close>

text \<open>
  A text whose trimmed form holds no line feed has at most one line that is not blank. It
  gives neither the primary strategy nor the line scan a scene: every part of the split
  is a piece of the text, so its trimmed form is one line with a title and no content,
  and a header line has no line behind it to fill its scene.
\<close>

lemma matchIgnoreCase_suffix: "matchIgnoreCase p s = Some r \<Longrightarrow> suffix r s"
  by (induction p s rule: matchIgnoreCase.induct) (auto split: if_splits intro: suffix_ConsI)

lemma matchSceneHeader_suffix:
  assumes "matchSceneHeader s = Some r"
  shows "suffix r s"
proof -
  from assms obtain r1 where r1: "matchIgnoreCase ''SCENE'' s = Some r1"
    and r: "r = dropWhile isDigit (dropWhile isWhiteSpace r1)"
    by (auto simp: matchSceneHeader_def Let_def split: option.splits if_splits)
  have "suffix r (dropWhile isWhiteSpace r1)"
    unfolding r by (rule suffix_dropWhile)
  also have "suffix \<dots> r1"
    by (rule suffix_dropWhile)
  also have "suffix r1 s"
    using r1 by (rule matchIgnoreCase_suffix)
  finally show ?thesis .
qed

lemma matchAt_suffix:
  assumes "matchAt p s = Some r"
  shows "suffix r s"
proof (cases p)
  case SceneMarker
  with assms obtain c where "matchSceneHeader s = Some (c # r)"
    by (auto simp: matchSceneMarker_def split: option.splits list.splits if_splits)
  then have "suffix (c # r) s"
    by (rule matchSceneHeader_suffix)
  then show ?thesis
    by (rule suffix_ConsD)
next
  case SentenceEnd
  with assms have "r = dropWhile isSentenceEnd s"
    by (auto simp: matchSentenceEnd_def split: if_splits)
  then show ?thesis
    by (simp add: suffix_dropWhile)
qed

lemma regexSplit_parts:
  "regexSplit p s = l # ls \<Longrightarrow> prefix l s \<and> (\<forall>part \<in> set ls. sublist part s)"
proof (induction p s arbitrary: l ls rule: regexSplit.induct)
  case (1 p)
  then show ?case by simp
next
  case (2 p c cs)
  show ?case
  proof (cases "matchAt p (c # cs)")
    case None
    obtain l' ls' where split: "regexSplit p cs = l' # ls'"
      by (cases "regexSplit p cs") (auto simp: regexSplit_nonempty)
    from "2.IH"(1) [OF None split]
    have "prefix l' cs" and "\<forall>part \<in> set ls'. sublist part cs"
      by simp_all
    moreover from "2.prems" None split have "l = c # l'" and "ls = ls'"
      by simp_all
    ultimately show ?thesis
      by (simp add: sublist_Cons_right)
  next
    case (Some rest)
    obtain l' ls' where split: "regexSplit p rest = l' # ls'"
      by (cases "regexSplit p rest") (auto simp: regexSplit_nonempty)
    from "2.IH"(2) [OF Some split]
    have "prefix l' rest" and ih: "\<forall>part \<in> set ls'. sublist part rest"
      by simp_all
    then have "\<forall>part \<in> set (l' # ls'). sublist part rest"
      by simp
    moreover have "sublist rest (c # cs)"
      using matchAt_suffix [OF Some] by (rule suffix_imp_sublist)
    ultimately have "\<forall>part \<in> set (l' # ls'). sublist part (c # cs)"
      using sublist_order.order.trans by blast
    moreover from "2.prems" Some split have "l = []" and "ls = l' # ls'"
      by simp_all
    ultimately show ?thesis
      by simp
  qed
qed

lemma regexSplit_sublist: "part \<in> set (regexSplit p s) \<Longrightarrow> sublist part s"
proof -
  assume part: "part \<in> set (regexSplit p s)"
  obtain l ls where split: "regexSplit p s = l # ls"
    by (cases "regexSplit p s") (auto simp: regexSplit_nonempty)
  from regexSplit_parts [OF split] part split show ?thesis
    by auto
qed

lemma dropWhile_sandwich:
  "m \<noteq> [] \<Longrightarrow> \<not> P (hd m) \<Longrightarrow> dropWhile P (l @ m @ r) = dropWhile P l @ m @ r"
  by (induction l) (auto simp: neq_Nil_conv)

lemma trim_sandwich:
  assumes "m \<noteq> []" and "\<not> isWhiteSpace (hd m)" and "\<not> isWhiteSpace (last m)"
  shows "trim (l @ m @ r) = trimStart l @ m @ trimEnd r"
proof -
  have 1: "dropWhile isWhiteSpace (l @ m @ r) = dropWhile isWhiteSpace l @ m @ r"
    using assms(1,2) by (rule dropWhile_sandwich)
  have "rev m \<noteq> []" and "\<not> isWhiteSpace (hd (rev m))"
    using assms(1,3) by (simp_all add: hd_rev)
  then have "dropWhile isWhiteSpace (rev r @ rev m @ rev (dropWhile isWhiteSpace l))
      = dropWhile isWhiteSpace (rev r) @ rev m @ rev (dropWhile isWhiteSpace l)"
    by (rule dropWhile_sandwich)
  then show ?thesis
    by (simp add: trim_def 1 trimStart_def trimEnd_def)
qed

lemma trim_ends:
  assumes "trim s \<noteq> []"
  shows "\<not> isWhiteSpace (hd (trim s))" and "\<not> isWhiteSpace (last (trim s))"
proof -
  have "trim s = trimStart (trimEnd s)"
    by (simp only: trim_eq trimStart_trimEnd)
  then have "trim s = dropWhile isWhiteSpace (trimEnd s)"
    by (simp only: trimStart_def)
  with assms show "\<not> isWhiteSpace (hd (trim s))"
    by (metis hd_dropWhile)
  have "rev (trim s) = dropWhile isWhiteSpace (rev (dropWhile isWhiteSpace s))"
    by (simp add: trim_def)
  moreover from assms have "rev (trim s) \<noteq> []"
    by simp
  ultimately have "\<not> isWhiteSpace (hd (rev (trim s)))"
    by (metis hd_dropWhile)
  with assms show "\<not> isWhiteSpace (last (trim s))"
    by (simp add: hd_rev)
qed

lemma trim_decomposition: "\<exists>u v. s = u @ trim s @ v"
proof -
  have "s = takeWhile isWhiteSpace s @ dropWhile isWhiteSpace s"
    by simp
  moreover have "dropWhile isWhiteSpace s
      = trim s @ rev (takeWhile isWhiteSpace (rev (dropWhile isWhiteSpace s)))"
  proof -
    have "rev (dropWhile isWhiteSpace s)
        = takeWhile isWhiteSpace (rev (dropWhile isWhiteSpace s))
          @ dropWhile isWhiteSpace (rev (dropWhile isWhiteSpace s))"
      by simp
    then have "rev (rev (dropWhile isWhiteSpace s))
        = rev (takeWhile isWhiteSpace (rev (dropWhile isWhiteSpace s))
          @ dropWhile isWhiteSpace (rev (dropWhile isWhiteSpace s)))"
      by (rule arg_cong)
    then show ?thesis
      by (simp only: rev_rev_ident rev_append trim_def)
  qed
  ultimately show ?thesis
    by metis
qed

lemma trim_sublist:
  assumes "sublist p s"
  shows "set (trim p) \<subseteq> set (trim s)"
proof (cases "trim p = []")
  case True
  then show ?thesis by simp
next
  case False
  from assms obtain a b where s: "s = a @ p @ b"
    by (auto simp: sublist_def)
  obtain u v where p: "p = u @ trim p @ v"
    using trim_decomposition by blast
  have "s = (a @ u) @ trim p @ (v @ b)"
    by (subst s, subst p) simp
  then have "trim s = trim ((a @ u) @ trim p @ (v @ b))"
    by simp
  also have "\<dots> = trimStart (a @ u) @ trim p @ trimEnd (v @ b)"
    using False trim_ends [OF False] by (rule trim_sandwich)
  finally show ?thesis
    by auto
qed

lemma usableSegments_single_line:
  assumes "LF \<notin> set (trim storyText)"
  shows "usableSegments storyText = []"
proof -
  have "usableSegment p = None" if "p \<in> set (regexSplit SceneMarker storyText)" for p
  proof -
    from that have "sublist p storyText"
      by (rule regexSplit_sublist)
    then have "set (trim p) \<subseteq> set (trim storyText)"
      by (rule trim_sublist)
    with assms have "LF \<notin> set (trim p)"
      by blast
    then show ?thesis
      by (rule usableSegment_single_line)
  qed
  then have "List.map_filter usableSegment ps = []"
    if "set ps \<subseteq> set (regexSplit SceneMarker storyText)" for ps
    using that by (induction ps) (auto simp: List.map_filter_simps)
  then show ?thesis
    by (simp add: usableSegments_def)
qed

lemma join_append:
  "xs \<noteq> [] \<Longrightarrow> ys \<noteq> [] \<Longrightarrow> join sep (xs @ ys) = join sep xs @ sep @ join sep ys"
proof (induction sep xs rule: join.induct)
  case (1 sep)
  then show ?case by simp
next
  case (2 sep x)
  then show ?case by (cases ys) simp_all
next
  case (3 sep x y xs)
  then show ?case by simp
qed

lemma join_member: "l \<in> set ls \<Longrightarrow> \<exists>p q. join sep ls = p @ l @ q"
proof (induction sep ls rule: join.induct)
  case (1 sep)
  then show ?case by simp
next
  case (2 sep x)
  then have "join sep [x] = [] @ l @ []"
    by simp
  then show ?case by blast
next
  case (3 sep x y xs)
  show ?case
  proof (cases "l = x")
    case True
    then have "join sep (x # y # xs) = [] @ l @ (sep @ join sep (y # xs))"
      by simp
    then show ?thesis by blast
  next
    case False
    with 3 obtain p q where "join sep (y # xs) = p @ l @ q"
      by auto
    then have "join sep (x # y # xs) = (x @ sep @ p) @ l @ q"
      by simp
    then show ?thesis by blast
  qed
qed

lemma join_snoc: "\<exists>p. join sep (xs @ [a]) = p @ a"
proof (cases "xs = []")
  case True
  then show ?thesis by simp
next
  case False
  then have "join sep (xs @ [a]) = (join sep xs @ sep) @ a"
    by (simp add: join_append)
  then show ?thesis by blast
qed

lemma nonblank_char: "\<not> blank l \<Longrightarrow> \<exists>l1 x l2. l = l1 @ x # l2 \<and> \<not> isWhiteSpace x"
proof -
  assume "\<not> blank l"
  then obtain x where "x \<in> set l" and x: "\<not> isWhiteSpace x"
    by (auto simp: blank_def)
  then obtain l1 l2 where "l = l1 @ x # l2"
    by (blast dest: split_list)
  with x show ?thesis
    by blast
qed

lemma two_nonblank_lines:
  assumes "\<not> blank a" and "\<not> blank b"
  shows "sep \<in> set (trim (join [sep] (A @ a # B @ b # C)))"
proof -
  obtain p where p: "join [sep] (A @ [a]) = p @ a"
    using join_snoc by blast
  have "b \<in> set (B @ b # C)"
    by simp
  then obtain p' q' where q: "join [sep] (B @ b # C) = p' @ b @ q'"
    using join_member [of b "B @ b # C" "[sep]"] by blast
  obtain a1 x a2 where a: "a = a1 @ x # a2" and x: "\<not> isWhiteSpace x"
    using nonblank_char [OF assms(1)] by blast
  obtain b1 y b2 where b: "b = b1 @ y # b2" and y: "\<not> isWhiteSpace y"
    using nonblank_char [OF assms(2)] by blast
  let ?m = "x # (a2 @ sep # p' @ b1) @ [y]"
  have "join [sep] (A @ a # B @ b # C) = join [sep] ((A @ [a]) @ (B @ b # C))"
    by simp
  also have "\<dots> = join [sep] (A @ [a]) @ [sep] @ join [sep] (B @ b # C)"
    by (rule join_append) simp_all
  also have "\<dots> = (p @ a1) @ ?m @ (b2 @ q')"
    by (simp only: p q) (simp add: a b)
  finally have "trim (join [sep] (A @ a # B @ b # C)) = trim ((p @ a1) @ ?m @ (b2 @ q'))"
    by simp
  also have "\<dots> = trimStart (p @ a1) @ ?m @ trimEnd (b2 @ q')"
    using x y by (intro trim_sandwich) simp_all
  finally show ?thesis
    by simp
qed

lemma nonblank_lines_single:
  assumes "LF \<notin> set (trim s)"
  shows "length (filter (\<lambda>line. trim line \<noteq> []) (splitChar LF s)) \<le> 1"
proof (rule ccontr)
  let ?P = "\<lambda>line. trim line \<noteq> []"
  assume "\<not> length (filter ?P (splitChar LF s)) \<le> 1"
  then obtain a b rest where f: "filter ?P (splitChar LF s) = a # b # rest"
    by (cases "filter ?P (splitChar LF s)"; cases "tl (filter ?P (splitChar LF s))") auto
  then obtain A vs where 1: "splitChar LF s = A @ a # vs" and a: "?P a"
    and 2: "b # rest = filter ?P vs"
    by (auto simp: filter_eq_Cons_iff)
  from 2 [symmetric] obtain B C where 3: "vs = B @ b # C" and b: "?P b"
    by (auto simp: filter_eq_Cons_iff)
  have "s = join [LF] (splitChar LF s)"
    by (simp add: join_splitChar)
  then have "s = join [LF] (A @ a # B @ b # C)"
    by (simp add: 1 3)
  moreover have "LF \<in> set (trim (join [LF] (A @ a # B @ b # C)))"
    using a b by (intro two_nonblank_lines) (simp_all add: trim_empty_iff)
  ultimately show False
    using assms by simp
qed

lemma scanLines_single:
  assumes "length lines \<le> 1"
  shows "(case scanLines c lines ([], None, 0) of
           (scenes', currentScene, n) \<Rightarrow> flushScene scenes' currentScene) = []"
proof (cases lines)
  case Nil
  then show ?thesis
    by (simp add: flushScene_def)
next
  case (Cons line rest)
  with assms have "lines = [line]"
    by simp
  then show ?thesis
    by (simp add: flushScene_def Let_def trim_def split: option.splits)
qed

lemma lineScanScenes_single_line:
  assumes "LF \<notin> set (trim storyText)"
  shows "lineScanScenes storyText c = []"
  unfolding lineScanScenes_def Let_def
  by (rule scanLines_single) (rule nonblank_lines_single [OF assms])

subsection \<open>The chunk splitter as a partition of the sentences\<close>

lemma chunkLoop_eq:
  "chunkLoop ss cs n i acc =
     acc @ map chunkText
       (filter (\<lambda>g. trim (join ''. '' g) \<noteq> [])
          (map (\<lambda>i. slice (i * cs) (min (i * cs + cs) (length ss)) ss) [i..<n]))"
proof (induction ss cs n i acc rule: chunkLoop.induct)
  case (1 ss cs n i acc)
  let ?g = "slice (i * cs) (min (i * cs + cs) (length ss)) ss"
  let ?chunk = "trim (join ''. '' ?g)"
  let ?acc = "if ?chunk \<noteq> [] then acc @ [?chunk @ ''.''] else acc"
  show ?case
  proof (cases "i < n")
    case True
    have step: "chunkLoop ss cs n i acc = chunkLoop ss cs n (i + 1) ?acc"
      using True by (subst chunkLoop.simps) (simp only: Let_def if_True)
    have upt: "[i..<n] = i # [i + 1..<n]"
      using True by (simp only: upt_conv_Cons Suc_eq_plus1)
    note IH = 1 [OF True refl refl refl]
    show ?thesis
      unfolding step IH upt by (simp add: chunkText_def)
  next
    case False
    then have "chunkLoop ss cs n i acc = acc"
      by (subst chunkLoop.simps) simp
    with False show ?thesis
      by simp
  qed
qed

lemma blank_append: "blank (a @ b) \<longleftrightarrow> blank a \<and> blank b"
  by (auto simp: blank_def)

lemma join_nonblank: "g \<noteq> [] \<Longrightarrow> \<forall>s \<in> set g. \<not> blank s \<Longrightarrow> \<not> blank (join sep g)"
  by (induction sep g rule: join.induct) (auto simp: blank_append)

lemma sentencesOf_nonblank: "\<forall>s \<in> set (sentencesOf storyText). \<not> blank s"
  by (simp add: sentencesOf_def trim_empty_iff)

lemma set_slice: "set (slice a b xs) \<subseteq> set xs"
  unfolding slice_def using set_take_subset set_drop_subset by fast

lemma chunk_nonempty_iff:
  assumes "\<forall>s \<in> set ss. \<not> blank s"
  shows "trim (join ''. '' (slice a b ss)) \<noteq> [] \<longleftrightarrow> slice a b ss \<noteq> []"
proof (cases "slice a b ss = []")
  case True
  have "trim (join ''. '' []) = []"
    by (simp add: trim_def)
  with True show ?thesis
    by (simp only:) simp
next
  case False
  have "\<forall>s \<in> set (slice a b ss). \<not> blank s"
  proof
    fix s
    assume "s \<in> set (slice a b ss)"
    then have "s \<in> set ss"
      using set_slice [of a b ss] by (rule set_mp [rotated])
    with assms show "\<not> blank s"
      by simp
  qed
  with False have "\<not> blank (join ''. '' (slice a b ss))"
    by (rule join_nonblank)
  then have "trim (join ''. '' (slice a b ss)) \<noteq> []"
    by (simp only: trim_empty_iff not_False_eq_True)
  with False show ?thesis
    by (simp only:)
qed

lemma filter_slices:
  assumes "\<forall>s \<in> set ss. \<not> blank s"
  shows "filter (\<lambda>g. trim (join ''. '' g) \<noteq> []) (map (\<lambda>i. slice (f i) (h i) ss) is)
       = filter (\<lambda>g. g \<noteq> []) (map (\<lambda>i. slice (f i) (h i) ss) is)"
  by (induction "is") (simp_all only: list.map filter.simps chunk_nonempty_iff [OF assms])

lemma splitTextIntoChunks_eq:
  "splitTextIntoChunks storyText 4 = map chunkText (sentenceGroups (sentencesOf storyText))"
proof -
  have "(length (sentencesOf storyText) + 4 - 1) div 4 = (length (sentencesOf storyText) + 3) div 4"
    by simp
  then show ?thesis
    unfolding splitTextIntoChunks_def sentenceGroups_def Let_def chunkLoop_eq
    by (simp only: filter_slices [OF sentencesOf_nonblank] append_Nil)
qed

lemma slice_chunk: "slice a (min (a + cs) (length ss)) ss = take cs (drop a ss)"
  by (simp add: slice_def min_def)

lemma concat_slices:
  "concat (map (\<lambda>i. slice (i * cs) (min (i * cs + cs) (length ss)) ss) [0..<k])
     = take (k * cs) ss"
proof (induction k)
  case 0
  show ?case by simp
next
  case (Suc k)
  have "concat (map (\<lambda>i. slice (i * cs) (min (i * cs + cs) (length ss)) ss) [0..<Suc k])
      = take (k * cs) ss @ slice (k * cs) (min (k * cs + cs) (length ss)) ss"
    using Suc by simp
  also have "\<dots> = take (k * cs) ss @ take cs (drop (k * cs) ss)"
    by (simp only: slice_chunk)
  also have "\<dots> = take (k * cs + cs) ss"
    by (rule take_add [symmetric])
  finally show ?case
    by (simp add: add.commute)
qed

lemma concat_filter_nonempty: "concat (filter (\<lambda>g. g \<noteq> []) xs) = concat xs"
  by (induction xs) auto

lemma concat_sentenceGroups: "concat (sentenceGroups ss) = ss"
proof -
  have "length ss \<le> 4 * ((length ss + 3) div 4)"
    by arith
  then show ?thesis
    by (simp add: sentenceGroups_def Let_def concat_filter_nonempty concat_slices)
qed

lemma length_sentenceGroups: "length (sentenceGroups ss) \<le> 4"
proof -
  have "length (sentenceGroups ss) \<le> length [0..<(4::nat)]"
    unfolding sentenceGroups_def Let_def
    by (rule order_trans [OF length_filter_le]) simp
  then show ?thesis
    by simp
qed

lemma chunkScenes_content: "map content (chunkScenes c i chunks) = chunks"
  by (induction chunks arbitrary: i) (simp_all add: chunkScene_def)

lemma chunkScenes_length: "length (chunkScenes c i chunks) = length chunks"
  by (induction chunks arbitrary: i) simp_all

lemma chunkScenes_nth:
  "k < length chunks \<Longrightarrow>
     number (chunkScenes c i chunks ! k) = i + k + 1
     \<and> sceneId (chunkScenes c i chunks ! k) = ''scene_'' @ numberToString (i + k + 1)
     \<and> sceneTitle (chunkScenes c i chunks ! k) = ''Scene '' @ numberToString (i + k + 1)"
proof (induction chunks arbitrary: i k)
  case Nil
  then show ?case by simp
next
  case (Cons chunk chunks)
  show ?case
  proof (cases k)
    case 0
    then show ?thesis
      by (simp add: chunkScene_def sceneIdOf_def)
  next
    case (Suc k')
    with Cons.prems have "k' < length chunks"
      by simp
    from Cons.IH [OF this, of "i + 1"] Suc show ?thesis
      by simp
  qed
qed

lemma fallbackParseStory_single_line:
  assumes "LF \<notin> set (trim storyText)"
  shows "fallbackParseStory storyText c =
     \<lparr>title = storyTitle c,
      scenes = map (refreshScene c)
        (chunkScenes c 0 (map chunkText (sentenceGroups (sentencesOf storyText)))),
      totalScenes = length (sentenceGroups (sentencesOf storyText)),
      character = c,
      emergencyFallback = False,
      fallbackParsed = True\<rparr>"
proof -
  let ?scenes = "map (refreshScene c)
    (chunkScenes c 0 (map chunkText (sentenceGroups (sentencesOf storyText))))"
  have len: "length ?scenes = length (sentenceGroups (sentencesOf storyText))"
    by (simp add: chunkScenes_length)
  then have "length ?scenes \<le> 4"
    using length_sentenceGroups [of "sentencesOf storyText"] by simp
  then have "take 4 ?scenes = ?scenes" "min (length ?scenes) 4 = length ?scenes"
    by simp_all
  then show ?thesis
    unfolding fallbackParseStory_def Let_def lineScanScenes_single_line [OF assms]
      splitTextIntoChunks_eq
    by (simp add: chunkScenes_length)
qed

lemma sentencesOf_paragraphText:
  "sentencesOf paragraphText
     = [''Once upon a time there was a fox'', '' It ran'', '' Did it stop'', '' No'',
        '' It kept going on and on'']"
  by code_simp

lemma sentencesOf_framedParagraphText:
  "sentencesOf framedParagraphText
     = [LF # ''Once upon a time there was a fox'', '' It ran'', '' Did it stop'', '' No'',
        '' It kept going on and on'' @ [LF, LF]]"
  by code_simp

lemma parse_primary_flags:
  assumes "50 \<le> length storyText" and "usableSegments storyText \<noteq> []"
  shows "\<not> emergencyFallback (parseStoryIntoScenes storyText c)"
    and "\<not> fallbackParsed (parseStoryIntoScenes storyText c)"
  by (simp_all add: parse_primary [OF assms])

subsection \<open>Stories without a scene\<close>

text \<open>
  The parser returns a story without scenes exactly when the text passes the length
  guard, neither strategy finds a scene and the text holds no sentence.
\<close>

lemma sentenceGroups_empty_iff: "sentenceGroups ss = [] \<longleftrightarrow> ss = []"
proof
  assume "sentenceGroups ss = []"
  then have "concat (sentenceGroups ss) = []"
    by simp
  then show "ss = []"
    by (simp only: concat_sentenceGroups)
next
  assume "ss = []"
  then show "sentenceGroups ss = []"
    by (simp add: sentenceGroups_def slice_def)
qed

lemma chunkScenes_empty_iff: "chunkScenes c i chunks = [] \<longleftrightarrow> chunks = []"
  by (cases chunks) simp_all

lemma fallbackParseStory_no_scene_iff:
  "scenes (fallbackParseStory storyText c) = []
     \<longleftrightarrow> lineScanScenes storyText c = [] \<and> sentencesOf storyText = []"
proof -
  have "take 4 xs = [] \<longleftrightarrow> xs = []" for xs :: "scene list"
    by (cases xs) simp_all
  then show ?thesis
    by (auto simp: fallbackParseStory_def Let_def splitTextIntoChunks_eq chunkScenes_empty_iff
        sentenceGroups_empty_iff)
qed

lemma parse_no_scene_iff:
  "scenes (parseStoryIntoScenes storyText c) = []
     \<longleftrightarrow> 50 \<le> length storyText \<and> usableSegments storyText = []
         \<and> lineScanScenes storyText c = [] \<and> sentencesOf storyText = []"
proof (cases "50 \<le> length storyText")
  case False
  then show ?thesis
    by (auto simp: parseStoryIntoScenes_def createEmergencyFallback_def Let_def)
next
  case len: True
  show ?thesis
  proof (cases "usableSegments storyText = []")
    case True
    with len show ?thesis
      by (simp add: parse_fallback fallbackParseStory_no_scene_iff)
  next
    case False
    then have "take 4 (usableSegments storyText) \<noteq> []"
      by (cases "usableSegments storyText") simp_all
    then have "numberedScenes c 1 (take 4 (usableSegments storyText)) \<noteq> []"
      by (cases "take 4 (usableSegments storyText)") simp_all
    with False show ?thesis
      by (simp add: parse_primary [OF len False])
  qed
qed

section \<open>The claims\<close>

subsection \<open>Four marked scenes\<close>

text \<open>
  Claim C1, as amended. A text of at least 50 code units that consists of a preamble
  without markers and four well-marked scenes is parsed into exactly four scenes numbered
  1 to 4, with the ids \<open>scene_1\<close> to \<open>scene_4\<close>, in the order of the input: they are the
  four marked scenes with their trimmed titles and bodies when the trimmed preamble is
  empty or a single line, and otherwise the preamble (its first line as the title)
  followed by the first three marked scenes. In every story that the parser returns each
  scene's id is \<open>scene_\<close> followed by its number; a story that carries neither flag has
  the numbers 1, 2, 3, 4, and the emergency story has the single number 1.
\<close>

theorem four_marked_scenes_parse_in_order:
  assumes "50 \<le> length storyText"
    and "storyText = pre @ m1 @ (t1 @ LF # b1) @ m2 @ (t2 @ LF # b2)
                   @ m3 @ (t3 @ LF # b3) @ m4 @ (t4 @ LF # b4)"
    and "markerFree pre"
    and "wellMarkedScene m1 t1 b1" and "wellMarkedScene m2 t2 b2"
    and "wellMarkedScene m3 t3 b3" and "wellMarkedScene m4 t4 b4"
  shows "map number (scenes (parseStoryIntoScenes storyText c)) = [1, 2, 3, 4]
       \<and> map sceneId (scenes (parseStoryIntoScenes storyText c))
           = [''scene_1'', ''scene_2'', ''scene_3'', ''scene_4'']
       \<and> map (\<lambda>s. (sceneTitle s, content s)) (scenes (parseStoryIntoScenes storyText c))
           = take 4 ((case usableSegment pre of None \<Rightarrow> [] | Some seg \<Rightarrow> [seg])
               @ [(trim t1, trim b1), (trim t2, trim b2), (trim t3, trim b3), (trim t4, trim b4)])
       \<and> (LF \<notin> set (trim pre) \<longrightarrow>
            map sceneTitle (scenes (parseStoryIntoScenes storyText c))
              = [trim t1, trim t2, trim t3, trim t4]
            \<and> map content (scenes (parseStoryIntoScenes storyText c))
              = [trim b1, trim b2, trim b3, trim b4])
       \<and> (\<forall>s \<in> set (scenes (parseStoryIntoScenes anyText c')).
             sceneId s = ''scene_'' @ numberToString (number s))
       \<and> (\<not> emergencyFallback (parseStoryIntoScenes anyText c')
            \<and> \<not> fallbackParsed (parseStoryIntoScenes anyText c')
          \<longrightarrow> map number (scenes (parseStoryIntoScenes anyText c')) = [1, 2, 3, 4])
       \<and> (emergencyFallback (parseStoryIntoScenes anyText c')
          \<longrightarrow> map number (scenes (parseStoryIntoScenes anyText c')) = [1])"
proof -
  define four where
    "four = [(trim t1, trim b1), (trim t2, trim b2), (trim t3, trim b3), (trim t4, trim b4)]"
  define segs where
    "segs = (case usableSegment pre of None \<Rightarrow> [] | Some seg \<Rightarrow> [seg]) @ four"
  have segs: "usableSegments storyText = segs"
    unfolding segs_def four_def using assms(2-7) by (rule usableSegments_four)
  have len4: "length (take 4 segs) = 4"
    by (simp add: segs_def four_def split: option.splits)
  have ne: "usableSegments storyText \<noteq> []"
    unfolding segs by (simp add: segs_def four_def)
  note p = parse_primary [OF assms(1) ne, of c, unfolded segs len4]
  have sc: "scenes (parseStoryIntoScenes storyText c) = numberedScenes c 1 (take 4 segs)"
    by (simp add: p)
  have "\<not> emergencyFallback (parseStoryIntoScenes storyText c)"
    "\<not> fallbackParsed (parseStoryIntoScenes storyText c)"
    by (simp_all add: p)
  then have numbers: "map number (scenes (parseStoryIntoScenes storyText c)) = [1, 2, 3, 4]"
    by (rule parse_numbers_unflagged)
  have "map sceneId (scenes (parseStoryIntoScenes storyText c))
      = map (\<lambda>n. ''scene_'' @ numberToString n)
          (map number (scenes (parseStoryIntoScenes storyText c)))"
    using parse_ids [of storyText c] by (simp add: idMatchesNumber_def)
  then have ids: "map sceneId (scenes (parseStoryIntoScenes storyText c))
      = [''scene_1'', ''scene_2'', ''scene_3'', ''scene_4'']"
    unfolding numbers by (simp add: numberToString_digit digitChar_def)
  have fields: "map (\<lambda>s. (sceneTitle s, content s)) (scenes (parseStoryIntoScenes storyText c))
      = take 4 segs"
    unfolding sc by (rule fields_numberedScenes)
  have one_line: "map sceneTitle (scenes (parseStoryIntoScenes storyText c))
        = [trim t1, trim t2, trim t3, trim t4]
      \<and> map content (scenes (parseStoryIntoScenes storyText c))
        = [trim b1, trim b2, trim b3, trim b4]"
    if "LF \<notin> set (trim pre)"
  proof -
    from that have "usableSegment pre = None"
      by (rule usableSegment_single_line)
    then have "take 4 segs = four"
      by (simp add: segs_def four_def)
    with fields have f: "map (\<lambda>s. (sceneTitle s, content s))
        (scenes (parseStoryIntoScenes storyText c)) = four"
      by simp
    have "map sceneTitle (scenes (parseStoryIntoScenes storyText c))
        = map fst (map (\<lambda>s. (sceneTitle s, content s)) (scenes (parseStoryIntoScenes storyText c)))"
      "map content (scenes (parseStoryIntoScenes storyText c))
        = map snd (map (\<lambda>s. (sceneTitle s, content s)) (scenes (parseStoryIntoScenes storyText c)))"
      by (simp_all add: comp_def)
    then show ?thesis
      unfolding f by (simp add: four_def)
  qed
  have all_ids: "\<forall>s \<in> set (scenes (parseStoryIntoScenes anyText c')).
      sceneId s = ''scene_'' @ numberToString (number s)"
    using parse_ids [of anyText c'] by (simp add: idMatchesNumber_def)
  have emergency: "map number (scenes (parseStoryIntoScenes anyText c')) = [1]"
    if "emergencyFallback (parseStoryIntoScenes anyText c')"
  proof (cases "anyText = [] \<or> length anyText < 50")
    case True
    then show ?thesis
      by (auto simp: parseStoryIntoScenes_def createEmergencyFallback_def Let_def)
  next
    case False
    then have len: "50 \<le> length anyText"
      by simp
    have "\<not> emergencyFallback (parseStoryIntoScenes anyText c')"
    proof (cases "usableSegments anyText = []")
      case True
      with len show ?thesis
        by (simp add: parse_fallback fallbackParseStory_def Let_def)
    next
      case False
      show ?thesis
        by (simp add: parse_primary [OF len False])
    qed
    with that show ?thesis
      by simp
  qed
  from numbers ids fields [unfolded segs_def four_def] one_line all_ids emergency
    parse_numbers_unflagged [of anyText c']
  show ?thesis
    by blast
qed

theorem four_marked_scenes_parse_in_order_witness:
  "50 \<le> length fourScenesText
   \<and> fourScenesText = [] @ ''SCENE 1:'' @ ('' The Gate'' @ LF # ''Mia found a gate.'' @ [LF, LF])
        @ ''scene 2:'' @ ('' Inside'' @ LF # ''She went in!'' @ [LF, LF])
        @ ''Scene  3:'' @ (''Deeper'' @ LF # ''It was dark.'' @ [LF])
        @ ''SCENE 44:'' @ ('' Out'' @ LF # ''She left.'')
   \<and> markerFree [] \<and> LF \<notin> set (trim [])
   \<and> wellMarkedScene ''SCENE 1:'' '' The Gate'' (''Mia found a gate.'' @ [LF, LF])
   \<and> wellMarkedScene ''scene 2:'' '' Inside'' (''She went in!'' @ [LF, LF])
   \<and> wellMarkedScene ''Scene  3:'' ''Deeper'' (''It was dark.'' @ [LF])
   \<and> wellMarkedScene ''SCENE 44:'' '' Out'' ''She left.''
   \<and> map number (scenes (parseStoryIntoScenes fourScenesText mia)) = [1, 2, 3, 4]
   \<and> map sceneId (scenes (parseStoryIntoScenes fourScenesText mia))
       = [''scene_1'', ''scene_2'', ''scene_3'', ''scene_4'']
   \<and> map sceneTitle (scenes (parseStoryIntoScenes fourScenesText mia))
       = [''The Gate'', ''Inside'', ''Deeper'', ''Out'']
   \<and> map content (scenes (parseStoryIntoScenes fourScenesText mia))
       = [''Mia found a gate.'', ''She went in!'', ''It was dark.'', ''She left.'']
   \<and> \<not> emergencyFallback (parseStoryIntoScenes fourScenesText mia)
   \<and> \<not> fallbackParsed (parseStoryIntoScenes fourScenesText mia)
   \<and> emergencyFallback (parseStoryIntoScenes ''Too short.'' mia)
   \<and> map number (scenes (parseStoryIntoScenes ''Too short.'' mia)) = [1]"
proof -
  have h1: "50 \<le> length fourScenesText"
    by code_simp
  have h2: "fourScenesText = [] @ ''SCENE 1:'' @ ('' The Gate'' @ LF # ''Mia found a gate.'' @ [LF, LF])
        @ ''scene 2:'' @ ('' Inside'' @ LF # ''She went in!'' @ [LF, LF])
        @ ''Scene  3:'' @ (''Deeper'' @ LF # ''It was dark.'' @ [LF])
        @ ''SCENE 44:'' @ ('' Out'' @ LF # ''She left.'')"
    by (simp add: fourScenesText_def)
  have h3: "markerFree []"
    by simp
  have h4: "LF \<notin> set (trim [])"
    by (simp add: trim_def)
  have w1: "wellMarkedScene ''SCENE 1:'' '' The Gate'' (''Mia found a gate.'' @ [LF, LF])"
    by code_simp
  have w2: "wellMarkedScene ''scene 2:'' '' Inside'' (''She went in!'' @ [LF, LF])"
    by code_simp
  have w3: "wellMarkedScene ''Scene  3:'' ''Deeper'' (''It was dark.'' @ [LF])"
    by code_simp
  have w4: "wellMarkedScene ''SCENE 44:'' '' Out'' ''She left.''"
    by code_simp
  have t: "trim '' The Gate'' = ''The Gate''" "trim '' Inside'' = ''Inside''"
    "trim ''Deeper'' = ''Deeper''" "trim '' Out'' = ''Out''"
    "trim (''Mia found a gate.'' @ [LF, LF]) = ''Mia found a gate.''"
    "trim (''She went in!'' @ [LF, LF]) = ''She went in!''"
    "trim (''It was dark.'' @ [LF]) = ''It was dark.''"
    "trim ''She left.'' = ''She left.''"
    by code_simp+
  have "usableSegments fourScenesText \<noteq> []"
    using usableSegments_four [OF h2 h3 w1 w2 w3 w4] by simp
  then have f: "\<not> emergencyFallback (parseStoryIntoScenes fourScenesText mia)"
    "\<not> fallbackParsed (parseStoryIntoScenes fourScenesText mia)"
    by (rule parse_primary_flags [OF h1])+
  have e: "emergencyFallback (parseStoryIntoScenes ''Too short.'' mia)"
    by (simp add: parseStoryIntoScenes_def createEmergencyFallback_def Let_def)
  from four_marked_scenes_parse_in_order
    [OF h1 h2 h3 w1 w2 w3 w4, of mia "''Too short.''" mia] h4 e
  have a: "map number (scenes (parseStoryIntoScenes fourScenesText mia)) = [1, 2, 3, 4]
   \<and> map sceneId (scenes (parseStoryIntoScenes fourScenesText mia))
       = [''scene_1'', ''scene_2'', ''scene_3'', ''scene_4'']
   \<and> map sceneTitle (scenes (parseStoryIntoScenes fourScenesText mia))
       = [''The Gate'', ''Inside'', ''Deeper'', ''Out'']
   \<and> map content (scenes (parseStoryIntoScenes fourScenesText mia))
       = [''Mia found a gate.'', ''She went in!'', ''It was dark.'', ''She left.'']
   \<and> map number (scenes (parseStoryIntoScenes ''Too short.'' mia)) = [1]"
    unfolding t by blast
  from four_marked_scenes_parse_in_order
    [OF h1 h2 h3 w1 w2 w3 w4, of mia fourScenesText mia] f
  have b: "map number (scenes (parseStoryIntoScenes fourScenesText mia)) = [1, 2, 3, 4]"
    by blast
  from a b h1 h2 h3 h4 w1 w2 w3 w4 e f show ?thesis
    by blast
qed

text \<open>
  The claim as stated fails below the length guard: four well-marked scenes in 44 code
  units give the emergency story with its single scene.
\<close>

theorem four_tiny_scenes_counterexample:
  "tinyScenesText = [] @ ''SCENE 1:'' @ (''a'' @ LF # ''b'') @ ''SCENE 2:'' @ (''a'' @ LF # ''b'')
       @ ''SCENE 3:'' @ (''a'' @ LF # ''b'') @ ''SCENE 4:'' @ (''a'' @ LF # ''b'')
   \<and> wellMarkedScene ''SCENE 1:'' ''a'' ''b'' \<and> wellMarkedScene ''SCENE 2:'' ''a'' ''b''
   \<and> wellMarkedScene ''SCENE 3:'' ''a'' ''b'' \<and> wellMarkedScene ''SCENE 4:'' ''a'' ''b''
   \<and> map number (scenes (parseStoryIntoScenes tinyScenesText mia)) = [1]
   \<and> map number (scenes (parseStoryIntoScenes tinyScenesText mia)) \<noteq> [1, 2, 3, 4]"
  by code_simp

subsection \<open>At least one scene\<close>

text \<open>
  Claim C2. A non-empty text should always yield a story with at least one scene, at
  worst the emergency story. The parser is total, so it never raises; but a text of fifty
  blanks passes the length guard, gives the primary strategy and the line scan nothing to
  find and the chunk splitter no sentence, and the story returned has no scene.
\<close>

theorem blank_text_gives_no_scene:
  "blankText \<noteq> [] \<and> length blankText = 50
   \<and> scenes (parseStoryIntoScenes blankText mia) = []
   \<and> totalScenes (parseStoryIntoScenes blankText mia) = 0
   \<and> fallbackParsed (parseStoryIntoScenes blankText mia)"
  by code_simp

subsection \<open>Padding and cutting to four scenes\<close>

text \<open>
  Claim C3, as amended. When the primary strategy finds at least one usable segment in a
  text of at least 50 code units, the story has exactly four scenes numbered 1 to 4 and
  \<open>totalScenes = 4\<close>: with fewer than four segments their scenes are followed by
  continuation scenes (title \<open>Scene n\<close>, the fixed content sentence) for the missing
  numbers, with more than four only the first four segments are used. When it finds none
  and the line scan finds scenes, the story has the first four of those, without padding,
  and \<open>totalScenes\<close> is their count capped at 4.
\<close>

theorem primary_scenes_padded_or_cut_to_four:
  assumes "50 \<le> length storyText"
    and "usableSegments storyText = segs"
    and "lineScanScenes storyText c = found"
  shows "(segs \<noteq> [] \<longrightarrow>
            length (scenes (parseStoryIntoScenes storyText c)) = 4
          \<and> totalScenes (parseStoryIntoScenes storyText c) = 4
          \<and> map number (scenes (parseStoryIntoScenes storyText c)) = [1, 2, 3, 4]
          \<and> (length segs < 4 \<longrightarrow>
               scenes (parseStoryIntoScenes storyText c)
                 = numberedScenes c 1 segs @ map (paddingScene c) [length segs + 1 ..< 5])
          \<and> (4 < length segs \<longrightarrow>
               scenes (parseStoryIntoScenes storyText c) = numberedScenes c 1 (take 4 segs)))
       \<and> (\<forall>n. number (paddingScene c n) = n
              \<and> sceneTitle (paddingScene c n) = ''Scene '' @ numberToString n
              \<and> content (paddingScene c n)
                  = name c @ '' continues their adventure with determination and courage.'')
       \<and> (segs = [] \<and> found \<noteq> [] \<longrightarrow>
            scenes (parseStoryIntoScenes storyText c) = take 4 (map (refreshScene c) found)
          \<and> totalScenes (parseStoryIntoScenes storyText c) = min (length found) 4)"
proof -
  have primary: "length (scenes (parseStoryIntoScenes storyText c)) = 4
      \<and> totalScenes (parseStoryIntoScenes storyText c) = 4
      \<and> map number (scenes (parseStoryIntoScenes storyText c)) = [1, 2, 3, 4]
      \<and> (length segs < 4 \<longrightarrow>
           scenes (parseStoryIntoScenes storyText c)
             = numberedScenes c 1 segs @ map (paddingScene c) [length segs + 1 ..< 5])
      \<and> (4 < length segs \<longrightarrow>
           scenes (parseStoryIntoScenes storyText c) = numberedScenes c 1 (take 4 segs))"
    if "segs \<noteq> []"
  proof -
    have ne: "usableSegments storyText \<noteq> []"
      using assms(2) that by simp
    note p = parse_primary [OF assms(1) ne, of c, unfolded assms(2)]
    have flags: "\<not> emergencyFallback (parseStoryIntoScenes storyText c)"
      "\<not> fallbackParsed (parseStoryIntoScenes storyText c)"
      by (simp_all add: p)
    have numbers: "map number (scenes (parseStoryIntoScenes storyText c)) = [1, 2, 3, 4]"
      using flags by (rule parse_numbers_unflagged)
    then have "length (map number (scenes (parseStoryIntoScenes storyText c))) = 4"
      by simp
    then have len: "length (scenes (parseStoryIntoScenes storyText c)) = 4"
      by simp
    have total: "totalScenes (parseStoryIntoScenes storyText c) = 4"
      by (simp add: p)
    have few: "scenes (parseStoryIntoScenes storyText c)
        = numberedScenes c 1 segs @ map (paddingScene c) [length segs + 1 ..< 5]"
      if "length segs < 4"
      using that by (simp add: p)
    have many: "scenes (parseStoryIntoScenes storyText c) = numberedScenes c 1 (take 4 segs)"
      if "4 < length segs"
      using that by (simp add: p)
    show ?thesis
      using len total numbers few many by simp
  qed
  have fallback: "scenes (parseStoryIntoScenes storyText c) = take 4 (map (refreshScene c) found)
      \<and> totalScenes (parseStoryIntoScenes storyText c) = min (length found) 4"
    if "segs = []" and "found \<noteq> []"
  proof -
    have "usableSegments storyText = []"
      using assms(2) that(1) by simp
    then have "parseStoryIntoScenes storyText c = fallbackParseStory storyText c"
      by (rule parse_fallback [OF assms(1)])
    then show ?thesis
      using that(2) by (simp add: fallbackParseStory_def Let_def assms(3))
  qed
  from primary fallback show ?thesis
    by simp
qed

theorem primary_scenes_padded_or_cut_to_four_witness:
  "50 \<le> length twoLineText
   \<and> usableSegments twoLineText
       = [(''Once upon a time there was a fox.'',
           ''It ran! Did it stop? No. It kept going on and on'')]
   \<and> map sceneTitle (scenes (parseStoryIntoScenes twoLineText mia))
       = [''Once upon a time there was a fox.'', ''Scene 2'', ''Scene 3'', ''Scene 4'']
   \<and> map content (scenes (parseStoryIntoScenes twoLineText mia))
       = [''It ran! Did it stop? No. It kept going on and on'',
          ''Mia continues their adventure with determination and courage.'',
          ''Mia continues their adventure with determination and courage.'',
          ''Mia continues their adventure with determination and courage.'']
   \<and> 50 \<le> length sixScenesText
   \<and> length (usableSegments sixScenesText) = 6
   \<and> map sceneTitle (scenes (parseStoryIntoScenes sixScenesText mia))
       = [''One'', ''Two'', ''Three'', ''Four'']
   \<and> totalScenes (parseStoryIntoScenes sixScenesText mia) = 4
   \<and> 50 \<le> length fiveHeaderLinesText
   \<and> usableSegments fiveHeaderLinesText = []
   \<and> map number (lineScanScenes fiveHeaderLinesText mia) = [1, 2, 3, 4, 5]
   \<and> map number (scenes (parseStoryIntoScenes fiveHeaderLinesText mia)) = [1, 2, 3, 4]
   \<and> totalScenes (parseStoryIntoScenes fiveHeaderLinesText mia) = 4"
proof -
  have l1: "50 \<le> length twoLineText"
    by (simp add: length_twoLineText)
  have l2: "50 \<le> length sixScenesText"
    by code_simp
  have u: "[Suc (Suc 0)..<5] = [2, 3, 4]"
    by (simp add: upt_rec)
  have n: "numberToString 2 = ''2''" "numberToString 3 = ''3''" "numberToString 4 = ''4''"
    by (simp_all add: numberToString_digit digitChar_def)
  from primary_scenes_padded_or_cut_to_four [OF l1 usableSegments_twoLineText refl, of mia]
  have "scenes (parseStoryIntoScenes twoLineText mia)
      = numberedScenes mia 1
          [(''Once upon a time there was a fox.'',
            ''It ran! Did it stop? No. It kept going on and on'')]
        @ map (paddingScene mia) [2, 3, 4]"
    by (simp add: u)
  then have a: "map sceneTitle (scenes (parseStoryIntoScenes twoLineText mia))
       = [''Once upon a time there was a fox.'', ''Scene 2'', ''Scene 3'', ''Scene 4'']
   \<and> map content (scenes (parseStoryIntoScenes twoLineText mia))
       = [''It ran! Did it stop? No. It kept going on and on'',
          ''Mia continues their adventure with determination and courage.'',
          ''Mia continues their adventure with determination and courage.'',
          ''Mia continues their adventure with determination and courage.'']"
    by (simp add: n mia_def)
  from primary_scenes_padded_or_cut_to_four [OF l2 usableSegments_sixScenesText refl, of mia]
  have b: "map sceneTitle (scenes (parseStoryIntoScenes sixScenesText mia))
       = [''One'', ''Two'', ''Three'', ''Four'']
   \<and> totalScenes (parseStoryIntoScenes sixScenesText mia) = 4"
    by simp
  have ne: "lineScanScenes fiveHeaderLinesText mia \<noteq> []"
    using scan_fiveHeaderLinesText(3) by auto
  have len5: "length (lineScanScenes fiveHeaderLinesText mia) = 5"
    using arg_cong [OF scan_fiveHeaderLinesText(3), of length] by simp
  from primary_scenes_padded_or_cut_to_four
    [OF scan_fiveHeaderLinesText(1) scan_fiveHeaderLinesText(2) refl, of mia] ne
  have sc: "scenes (parseStoryIntoScenes fiveHeaderLinesText mia)
        = take 4 (map (refreshScene mia) (lineScanScenes fiveHeaderLinesText mia))"
    and tot: "totalScenes (parseStoryIntoScenes fiveHeaderLinesText mia)
        = min (length (lineScanScenes fiveHeaderLinesText mia)) 4"
    by simp_all
  have "map number (scenes (parseStoryIntoScenes fiveHeaderLinesText mia))
      = take 4 (map number (lineScanScenes fiveHeaderLinesText mia))"
    unfolding sc by (simp add: take_map comp_def refreshScene_def)
  then have c: "map number (scenes (parseStoryIntoScenes fiveHeaderLinesText mia)) = [1, 2, 3, 4]
      \<and> totalScenes (parseStoryIntoScenes fiveHeaderLinesText mia) = 4"
    unfolding scan_fiveHeaderLinesText(3) tot len5 by simp
  show ?thesis
    using l1 l2 a b c scan_fiveHeaderLinesText
    by (simp add: usableSegments_twoLineText usableSegments_sixScenesText)
qed

text \<open>
  The claim as stated fails for scenes found by the line scan: they are returned as they
  are, here a single scene with \<open>totalScenes = 1\<close>.
\<close>

theorem line_scan_scenes_are_not_padded_counterexample:
  "50 \<le> length headerLineText
   \<and> map number (lineScanScenes headerLineText mia) = [1]
   \<and> map number (scenes (parseStoryIntoScenes headerLineText mia)) = [1]
   \<and> length (scenes (parseStoryIntoScenes headerLineText mia)) \<noteq> 4
   \<and> totalScenes (parseStoryIntoScenes headerLineText mia) = 1
   \<and> totalScenes (parseStoryIntoScenes headerLineText mia) \<noteq> 4"
  by code_simp

subsection \<open>Descriptions\<close>

text \<open>
  Claim C4. Every scene of a parsed story should carry a description equal to its
  content. The scenes that pad a story to four are built without the property: on the
  two-line text the parser finds one scene and appends three that have no description.
\<close>

theorem padding_scenes_have_no_description:
  "50 \<le> length twoLineText
   \<and> map (\<lambda>s. description s = Some (content s))
         (scenes (parseStoryIntoScenes twoLineText mia)) = [True, False, False, False]
   \<and> map description (scenes (parseStoryIntoScenes twoLineText mia))
       = [Some ''It ran! Did it stop? No. It kept going on and on'', None, None, None]"
proof -
  have l: "50 \<le> length twoLineText"
    by (simp add: length_twoLineText)
  have ne: "usableSegments twoLineText \<noteq> []"
    by (simp add: usableSegments_twoLineText)
  have u: "[Suc (Suc 0)..<5] = [2, 3, 4]"
    by (simp add: upt_rec)
  show ?thesis
    by (simp add: l parse_primary [OF l ne] usableSegments_twoLineText u)
qed

subsection \<open>Retryable errors\<close>

text \<open>
  Claim C5. An error is retryable exactly when its message, in lower case, contains one of
  the eight keywords; and when the model fails twice with a message containing
  \<open>rate limit\<close> and then answers, \<open>generateStory\<close> returns a result with
  \<open>success = true\<close> and \<open>metadata.attempt = 3\<close>, after exactly those three calls.
\<close>

theorem retryable_iff_keyword_and_third_attempt_succeeds:
  "(isRetryableError message \<longleftrightarrow>
      (\<exists>k \<in> set [''overloaded'', ''service unavailable'', ''503'', ''temporarily unavailable'',
                  ''rate limit'', ''quota exceeded'', ''timed out'', ''timeout''].
         \<exists>pre post. toLowerCase message = pre @ k @ post))
   \<and> (client st0 = (Rejects (p1 @ ''rate limit'' @ q1), st1) \<longrightarrow>
      client st1 = (Rejects (p2 @ ''rate limit'' @ q2), st2) \<longrightarrow>
      client st2 = (Responds storyText, st3) \<longrightarrow>
      (\<exists>r. generateStory client g c st0 = (Returned r, st3)
         \<and> success r \<and> attempt (metadata r) = 3))"
proof (intro conjI impI)
  show "isRetryableError message \<longleftrightarrow>
      (\<exists>k \<in> set [''overloaded'', ''service unavailable'', ''503'', ''temporarily unavailable'',
                  ''rate limit'', ''quota exceeded'', ''timed out'', ''timeout''].
         \<exists>pre post. toLowerCase message = pre @ k @ post)"
    unfolding isRetryableError_iff retryableMessages_def ..
next
  assume c1: "client st0 = (Rejects (p1 @ ''rate limit'' @ q1), st1)"
    and c2: "client st1 = (Rejects (p2 @ ''rate limit'' @ q2), st2)"
    and c3: "client st2 = (Responds storyText, st3)"
  have r1: "isRetryableError (p1 @ ''rate limit'' @ q1)"
    and r2: "isRetryableError (p2 @ ''rate limit'' @ q2)"
    by (rule rate_limit_retryable)+
  have "attemptLoop tryParse client g c 1 st0 = attemptLoop tryParse client g c (1 + 1) st1"
    by (rule attemptLoop_retry [where client = client and st = st0, OF _ c1 _ r1])
      (simp_all add: maxRetries_def)
  also have "\<dots> = attemptLoop tryParse client g c (1 + 1 + 1) st2"
    by (rule attemptLoop_retry [where client = client and st = st1, OF _ c2 _ r2])
      (simp_all add: maxRetries_def)
  also have "\<dots> = (Returned (successResult g c (1 + 1 + 1) storyText
        (parseOrEmergency tryParse storyText c)), st3)"
    by (rule attemptLoop_success [where client = client and st = st2, OF _ c3])
      (simp_all add: maxRetries_def)
  finally show "\<exists>r. generateStory client g c st0 = (Returned r, st3)
      \<and> success r \<and> attempt (metadata r) = 3"
    by (simp add: generateStory_def generateStoryWith_def successResult_def)
qed

theorem retryable_iff_keyword_and_third_attempt_succeeds_witness:
  "scriptedClient [Rejects ''429: rate limit hit'', Rejects ''rate limit'', Responds ''The end.'']
       0 = (Rejects (''429: '' @ ''rate limit'' @ '' hit''), 1)
   \<and> scriptedClient [Rejects ''429: rate limit hit'', Rejects ''rate limit'', Responds ''The end.'']
       1 = (Rejects ([] @ ''rate limit'' @ []), 2)
   \<and> scriptedClient [Rejects ''429: rate limit hit'', Rejects ''rate limit'', Responds ''The end.'']
       2 = (Responds ''The end.'', 3)
   \<and> (\<exists>r. generateStory
          (scriptedClient
             [Rejects ''429: rate limit hit'', Rejects ''rate limit'', Responds ''The end.''])
          ''fantasy'' mia 0 = (Returned r, 3)
        \<and> success r \<and> attempt (metadata r) = 3)"
proof -
  let ?client = "scriptedClient
    [Rejects ''429: rate limit hit'', Rejects ''rate limit'', Responds ''The end.'']"
  have h1: "?client 0 = (Rejects (''429: '' @ ''rate limit'' @ '' hit''), 1)"
    by (simp add: scriptedClient_def)
  have h2: "?client 1 = (Rejects ([] @ ''rate limit'' @ []), 2)"
    by (simp add: scriptedClient_def)
  have h3: "?client 2 = (Responds ''The end.'', 3)"
    by (simp add: scriptedClient_def)
  from retryable_iff_keyword_and_third_attempt_succeeds
    [where client = ?client and ?st0.0 = 0 and ?st1.0 = 1 and ?st2.0 = 2 and ?st3.0 = 3
       and ?p1.0 = "''429: ''" and ?q1.0 = "'' hit''" and ?p2.0 = "[]" and ?q2.0 = "[]"
       and storyText = "''The end.''" and g = "''fantasy''" and c = mia]
    h1 h2 h3
  have "\<exists>r. generateStory ?client ''fantasy'' mia 0 = (Returned r, 3)
      \<and> success r \<and> attempt (metadata r) = 3"
    by blast
  with h1 h2 h3 show ?thesis
    by blast
qed

subsection \<open>Errors that are not retryable\<close>

text \<open>
  Claim C6. When the first model call fails with an error that is not retryable,
  \<open>generateStory\<close> throws at once: the service is left in the state behind that one
  call, and the message of the error thrown holds the attempt count 1 and the message of
  the underlying error.
\<close>

theorem non_retryable_error_fails_first_attempt:
  assumes "client st = (Rejects message, st')" and "\<not> isRetryableError message"
  shows "generateStory client g c st
       = (Threw (''Story generation failed after 1 attempts: '' @ message), st')"
proof -
  have "attemptLoop tryParse client g c 1 st
      = (Threw (''Story generation failed after '' @ numberToString 1
                @ '' attempts: '' @ message), st')"
    using assms
    by (intro attemptLoop_terminal [where client = client and st = st and outcome = "Rejects message"])
      (simp_all add: maxRetries_def)
  moreover have "numberToString 1 = ''1''"
    by (subst numberToString.simps) (simp add: digitChar_def)
  ultimately show ?thesis
    by (simp add: generateStory_def generateStoryWith_def)
qed

theorem non_retryable_error_fails_first_attempt_witness:
  "scriptedClient [Rejects ''API error: Invalid API key'', Responds ''The end.''] 0
     = (Rejects ''API error: Invalid API key'', 1)
   \<and> \<not> isRetryableError ''API error: Invalid API key''
   \<and> generateStory (scriptedClient [Rejects ''API error: Invalid API key'', Responds ''The end.''])
         ''fantasy'' mia 0
       = (Threw ''Story generation failed after 1 attempts: API error: Invalid API key'', 1)"
proof -
  let ?client = "scriptedClient [Rejects ''API error: Invalid API key'', Responds ''The end.'']"
  have h1: "?client 0 = (Rejects ''API error: Invalid API key'', 1)"
    by (simp add: scriptedClient_def)
  have h2: "\<not> isRetryableError ''API error: Invalid API key''"
    by code_simp
  from non_retryable_error_fails_first_attempt
    [where client = ?client and st = 0 and g = "''fantasy''" and c = mia, OF h1 h2] h1 h2
  show ?thesis
    by simp
qed

subsection \<open>Short texts\<close>

text \<open>
  Claim C7. A text that is empty or shorter than 50 code units yields the emergency
  story: one scene with id \<open>scene_1\<close> and number 1, whose content is the text itself, or
  the placeholder sentence when the text is empty; \<open>totalScenes\<close> is 1 and
  \<open>emergencyFallback\<close> is set.
\<close>

theorem short_text_gives_emergency_fallback:
  assumes "storyText = [] \<or> length storyText < 50"
  shows "\<exists>s. scenes (parseStoryIntoScenes storyText c) = [s]
           \<and> sceneId s = ''scene_1'' \<and> number s = 1
           \<and> content s =
               (if storyText = []
                then name c @ '' embarks on an exciting adventure filled with challenges and discoveries.''
                else storyText)
           \<and> totalScenes (parseStoryIntoScenes storyText c) = 1
           \<and> emergencyFallback (parseStoryIntoScenes storyText c)"
  using assms
  by (auto simp: parseStoryIntoScenes_def createEmergencyFallback_def orElse_def Let_def)

theorem short_text_gives_emergency_fallback_witness:
  "([] = ([] :: string) \<or> length ([] :: string) < 50)
   \<and> (''Too short.'' = [] \<or> length ''Too short.'' < 50)
   \<and> map content (scenes (parseStoryIntoScenes [] mia))
       = [''Mia embarks on an exciting adventure filled with challenges and discoveries.'']
   \<and> map content (scenes (parseStoryIntoScenes ''Too short.'' mia)) = [''Too short.'']
   \<and> totalScenes (parseStoryIntoScenes ''Too short.'' mia) = 1
   \<and> emergencyFallback (parseStoryIntoScenes ''Too short.'' mia)"
proof -
  have h1: "[] = ([] :: string) \<or> length ([] :: string) < 50"
    by simp
  have h2: "''Too short.'' = [] \<or> length ''Too short.'' < 50"
    by simp
  from short_text_gives_emergency_fallback [OF h1, of mia]
  have "map content (scenes (parseStoryIntoScenes [] mia))
       = [''Mia embarks on an exciting adventure filled with challenges and discoveries.'']"
    by (auto simp: mia_def)
  moreover from short_text_gives_emergency_fallback [OF h2, of mia]
  have "map content (scenes (parseStoryIntoScenes ''Too short.'' mia)) = [''Too short.'']
      \<and> totalScenes (parseStoryIntoScenes ''Too short.'' mia) = 1
      \<and> emergencyFallback (parseStoryIntoScenes ''Too short.'' mia)"
    by auto
  ultimately show ?thesis
    by simp
qed

subsection \<open>The chunk splitter\<close>

text \<open>
  Claim C8, as amended. For a text of at least 50 code units with at most one line that
  is not blank (its trimmed form contains no line feed), whether or not it holds markers,
  parsing falls through to the chunk splitter: the story is tagged \<open>fallbackParsed\<close> and
  has at most four scenes, numbered from 1 and titled \<open>Scene n\<close>; the sentences of the
  text (the non-blank pieces between runs of \<open>.\<close>, \<open>!\<close> and \<open>?\<close>) are cut into
  consecutive non-empty groups, one per scene, and the content of a scene is its group
  joined with a period and a blank, trimmed, with a final period.
\<close>

theorem one_line_text_is_split_into_chunks:
  assumes "50 \<le> length storyText" and "LF \<notin> set (trim storyText)"
  shows "fallbackParsed (parseStoryIntoScenes storyText c)
       \<and> length (scenes (parseStoryIntoScenes storyText c)) \<le> 4
       \<and> totalScenes (parseStoryIntoScenes storyText c)
           = length (scenes (parseStoryIntoScenes storyText c))
       \<and> (\<forall>k < length (scenes (parseStoryIntoScenes storyText c)).
             number (scenes (parseStoryIntoScenes storyText c) ! k) = k + 1
             \<and> sceneTitle (scenes (parseStoryIntoScenes storyText c) ! k)
                 = ''Scene '' @ numberToString (k + 1))
       \<and> (\<exists>groups. concat groups = sentencesOf storyText \<and> [] \<notin> set groups
             \<and> map content (scenes (parseStoryIntoScenes storyText c))
                 = map (\<lambda>g. trim (join ''. '' g) @ ''.'') groups)"
proof -
  let ?groups = "sentenceGroups (sentencesOf storyText)"
  let ?chunks = "chunkScenes c 0 (map chunkText ?groups)"
  have "usableSegments storyText = []"
    using assms(2) by (rule usableSegments_single_line)
  then have p: "parseStoryIntoScenes storyText c = fallbackParseStory storyText c"
    by (rule parse_fallback [OF assms(1)])
  note f = fallbackParseStory_single_line [OF assms(2), of c]
  have sc: "scenes (parseStoryIntoScenes storyText c) = map (refreshScene c) ?chunks"
    by (simp add: p f)
  have len: "length (scenes (parseStoryIntoScenes storyText c)) = length ?groups"
    by (simp add: sc chunkScenes_length)
  have 1: "fallbackParsed (parseStoryIntoScenes storyText c)"
    by (simp add: p f)
  have 2: "length (scenes (parseStoryIntoScenes storyText c)) \<le> 4"
    unfolding len by (rule length_sentenceGroups)
  have 3: "totalScenes (parseStoryIntoScenes storyText c)
      = length (scenes (parseStoryIntoScenes storyText c))"
    unfolding len by (simp add: p f)
  have 4: "number (scenes (parseStoryIntoScenes storyText c) ! k) = k + 1
      \<and> sceneTitle (scenes (parseStoryIntoScenes storyText c) ! k)
          = ''Scene '' @ numberToString (k + 1)"
    if "k < length (scenes (parseStoryIntoScenes storyText c))" for k
  proof -
    from that have k: "k < length (map chunkText ?groups)"
      by (simp add: len)
    then have "k < length ?chunks"
      by (simp add: chunkScenes_length)
    then have "scenes (parseStoryIntoScenes storyText c) ! k = refreshScene c (?chunks ! k)"
      by (simp add: sc)
    with chunkScenes_nth [OF k, of c 0] show ?thesis
      by (simp add: refreshScene_def)
  qed
  have "map content (scenes (parseStoryIntoScenes storyText c)) = map chunkText ?groups"
    by (simp add: sc comp_def refreshScene_def chunkScenes_content)
  then have "map content (scenes (parseStoryIntoScenes storyText c))
      = map (\<lambda>g. trim (join ''. '' g) @ ''.'') ?groups"
    by (simp add: chunkText_def)
  moreover have "concat ?groups = sentencesOf storyText"
    by (rule concat_sentenceGroups)
  moreover have "[] \<notin> set ?groups"
    by (simp add: sentenceGroups_def Let_def)
  ultimately have 5: "\<exists>groups. concat groups = sentencesOf storyText \<and> [] \<notin> set groups
      \<and> map content (scenes (parseStoryIntoScenes storyText c))
          = map (\<lambda>g. trim (join ''. '' g) @ ''.'') groups"
    by blast
  from 1 2 3 4 5 show ?thesis
    by blast
qed

theorem one_line_text_is_split_into_chunks_witness:
  "50 \<le> length paragraphText \<and> LF \<notin> set (trim paragraphText)
   \<and> fallbackParsed (parseStoryIntoScenes paragraphText mia)
   \<and> length (scenes (parseStoryIntoScenes paragraphText mia)) \<le> 4
   \<and> (\<exists>groups. concat groups
          = [''Once upon a time there was a fox'', '' It ran'', '' Did it stop'', '' No'',
             '' It kept going on and on'']
        \<and> [] \<notin> set groups
        \<and> map content (scenes (parseStoryIntoScenes paragraphText mia))
            = map (\<lambda>g. trim (join ''. '' g) @ ''.'') groups)
   \<and> 50 \<le> length framedParagraphText \<and> LF \<in> set framedParagraphText
   \<and> LF \<notin> set (trim framedParagraphText)
   \<and> fallbackParsed (parseStoryIntoScenes framedParagraphText mia)
   \<and> length (scenes (parseStoryIntoScenes framedParagraphText mia)) \<le> 4
   \<and> (\<exists>groups. concat groups
          = [LF # ''Once upon a time there was a fox'', '' It ran'', '' Did it stop'', '' No'',
             '' It kept going on and on'' @ [LF, LF]]
        \<and> [] \<notin> set groups
        \<and> map content (scenes (parseStoryIntoScenes framedParagraphText mia))
            = map (\<lambda>g. trim (join ''. '' g) @ ''.'') groups)"
proof -
  have h1: "50 \<le> length paragraphText"
    by code_simp
  have h2: "LF \<notin> set (trim paragraphText)"
    by code_simp
  have h3: "50 \<le> length framedParagraphText"
    by code_simp
  have h4: "LF \<notin> set (trim framedParagraphText)"
    by code_simp
  have h5: "LF \<in> set framedParagraphText"
    by (simp add: framedParagraphText_def)
  from one_line_text_is_split_into_chunks [OF h1 h2, of mia]
  have a: "fallbackParsed (parseStoryIntoScenes paragraphText mia)
   \<and> length (scenes (parseStoryIntoScenes paragraphText mia)) \<le> 4
   \<and> (\<exists>groups. concat groups
          = [''Once upon a time there was a fox'', '' It ran'', '' Did it stop'', '' No'',
             '' It kept going on and on'']
        \<and> [] \<notin> set groups
        \<and> map content (scenes (parseStoryIntoScenes paragraphText mia))
            = map (\<lambda>g. trim (join ''. '' g) @ ''.'') groups)"
    unfolding sentencesOf_paragraphText by blast
  from one_line_text_is_split_into_chunks [OF h3 h4, of mia]
  have b: "fallbackParsed (parseStoryIntoScenes framedParagraphText mia)
   \<and> length (scenes (parseStoryIntoScenes framedParagraphText mia)) \<le> 4
   \<and> (\<exists>groups. concat groups
          = [LF # ''Once upon a time there was a fox'', '' It ran'', '' Did it stop'', '' No'',
             '' It kept going on and on'' @ [LF, LF]]
        \<and> [] \<notin> set groups
        \<and> map content (scenes (parseStoryIntoScenes framedParagraphText mia))
            = map (\<lambda>g. trim (join ''. '' g) @ ''.'') groups)"
    unfolding sentencesOf_framedParagraphText by blast
  from a b h1 h2 h3 h4 h5 show ?thesis
    by blast
qed

text \<open>
  The claim as stated fails for a text with two lines that are not blank: without any
  marker, the primary strategy takes the first line for a title and the rest for the
  content of scene 1, and the story is not tagged.
\<close>

theorem two_line_text_without_markers_counterexample:
  "50 \<le> length twoLineText
   \<and> markerFree twoLineText
   \<and> list_all (\<lambda>line. \<not> isSceneHeader (trim line)) (splitChar LF twoLineText)
   \<and> \<not> fallbackParsed (parseStoryIntoScenes twoLineText mia)
   \<and> map sceneTitle (scenes (parseStoryIntoScenes twoLineText mia))
       = [''Once upon a time there was a fox.'', ''Scene 2'', ''Scene 3'', ''Scene 4'']"
proof -
  have l: "50 \<le> length twoLineText"
    by (simp add: length_twoLineText)
  have ne: "usableSegments twoLineText \<noteq> []"
    by (simp add: usableSegments_twoLineText)
  have m: "markerFree twoLineText"
    by code_simp
  have h: "list_all (\<lambda>line. \<not> isSceneHeader (trim line)) (splitChar LF twoLineText)"
    by code_simp
  have u: "[Suc (Suc 0)..<5] = [2, 3, 4]"
    by (simp add: upt_rec)
  have n: "numberToString 2 = ''2''" "numberToString 3 = ''3''" "numberToString 4 = ''4''"
    by (simp_all add: numberToString_digit digitChar_def)
  have "\<not> fallbackParsed (parseStoryIntoScenes twoLineText mia)
      \<and> map sceneTitle (scenes (parseStoryIntoScenes twoLineText mia))
          = [''Once upon a time there was a fox.'', ''Scene 2'', ''Scene 3'', ''Scene 4'']"
    by (simp add: parse_primary [OF l ne] usableSegments_twoLineText u n)
  with l m h show ?thesis
    by blast
qed

subsection \<open>Determinism\<close>

text \<open>
  Claim C9. Two calls of the parser on the same text and character give the same story:
  the same title, and the same ids, numbers, titles, contents and storyboard prompts of
  the scenes. The parser reads nothing but its two arguments.
\<close>

theorem parse_is_deterministic:
  assumes "parseStoryIntoScenes storyText c = first"
    and "parseStoryIntoScenes storyText c = second"
  shows "title first = title second
       \<and> map sceneId (scenes first) = map sceneId (scenes second)
       \<and> map number (scenes first) = map number (scenes second)
       \<and> map sceneTitle (scenes first) = map sceneTitle (scenes second)
       \<and> map content (scenes first) = map content (scenes second)
       \<and> map storyboardPrompt (scenes first) = map storyboardPrompt (scenes second)
       \<and> first = second"
  using assms by simp

theorem parse_is_deterministic_witness:
  "parseStoryIntoScenes ''Too short.'' mia = createEmergencyFallback mia ''Too short.''
   \<and> map sceneId (scenes (createEmergencyFallback mia ''Too short.'')) = [''scene_1'']"
proof -
  have h: "parseStoryIntoScenes ''Too short.'' mia = createEmergencyFallback mia ''Too short.''"
    by (simp add: parseStoryIntoScenes_def)
  from parse_is_deterministic [OF h h] h show ?thesis
    by (simp add: createEmergencyFallback_def Let_def)
qed

subsection \<open>The scene count of a result\<close>

text \<open>
  Claim C10. In every result that \<open>generateStory\<close> returns, \<open>metadata.sceneCount\<close> is
  the length of \<open>story.scenes\<close>. This holds whatever the parser does: when the parser
  throws and the emergency story of the \<open>catch\<close> branch takes the place of its result,
  the count is 1.
\<close>

theorem sceneCount_is_number_of_scenes:
  "(generateStory client g c st = (Returned r, st') \<longrightarrow>
      sceneCount (metadata r) = length (scenes (story r)))
   \<and> (generateStoryWith parser client' g c st2 = (Returned r2, st2') \<longrightarrow>
      sceneCount (metadata r2) = length (scenes (story r2))
      \<and> ((\<exists>e. parser (rawText r2) c = Inl e) \<longrightarrow>
           sceneCount (metadata r2) = 1 \<and> emergencyFallback (story r2)))"
proof (intro conjI impI)
  assume "generateStory client g c st = (Returned r, st')"
  then obtain a' storyText
    where "r = successResult g c a' storyText (parseOrEmergency tryParse storyText c)"
    unfolding generateStory_def generateStoryWith_def by (blast dest: attemptLoop_Returned)
  then show "sceneCount (metadata r) = length (scenes (story r))"
    by (simp add: successResult_def)
next
  assume "generateStoryWith parser client' g c st2 = (Returned r2, st2')"
  then obtain a' storyText
    where r: "r2 = successResult g c a' storyText (parseOrEmergency parser storyText c)"
    unfolding generateStoryWith_def by (blast dest: attemptLoop_Returned)
  show "sceneCount (metadata r2) = length (scenes (story r2))"
    by (simp add: r successResult_def)
  assume "\<exists>e. parser (rawText r2) c = Inl e"
  then show "sceneCount (metadata r2) = 1"
    by (auto simp: r successResult_def parseOrEmergency_def)
next
  assume "generateStoryWith parser client' g c st2 = (Returned r2, st2')"
  then obtain a' storyText
    where r: "r2 = successResult g c a' storyText (parseOrEmergency parser storyText c)"
    unfolding generateStoryWith_def by (blast dest: attemptLoop_Returned)
  assume "\<exists>e. parser (rawText r2) c = Inl e"
  then show "emergencyFallback (story r2)"
    by (auto simp: r successResult_def parseOrEmergency_def)
qed

theorem sceneCount_is_number_of_scenes_witness:
  "generateStory (scriptedClient [Responds ''The end.'']) ''fantasy'' mia 0
     = (Returned (successResult ''fantasy'' mia 1 ''The end.''
          (parseOrEmergency tryParse ''The end.'' mia)), 1)
   \<and> sceneCount (metadata (successResult ''fantasy'' mia 1 ''The end.''
          (parseOrEmergency tryParse ''The end.'' mia))) = 1
   \<and> generateStoryWith (\<lambda>storyText characterDNA'. Inl TypeError)
       (scriptedClient [Responds ''The end.'']) ''fantasy'' mia 0
     = (Returned (successResult ''fantasy'' mia 1 ''The end.''
          (parseOrEmergency (\<lambda>storyText characterDNA'. Inl TypeError) ''The end.'' mia)), 1)
   \<and> sceneCount (metadata (successResult ''fantasy'' mia 1 ''The end.''
          (parseOrEmergency (\<lambda>storyText characterDNA'. Inl TypeError) ''The end.'' mia))) = 1
   \<and> emergencyFallback (story (successResult ''fantasy'' mia 1 ''The end.''
          (parseOrEmergency (\<lambda>storyText characterDNA'. Inl TypeError) ''The end.'' mia)))"
proof -
  let ?parser = "\<lambda>(storyText :: string) (characterDNA' :: characterDNA). (Inl TypeError :: jsError + story)"
  let ?client = "scriptedClient [Responds ''The end.'']"
  let ?r = "successResult ''fantasy'' mia 1 ''The end.'' (parseOrEmergency tryParse ''The end.'' mia)"
  let ?r2 = "successResult ''fantasy'' mia 1 ''The end.'' (parseOrEmergency ?parser ''The end.'' mia)"
  have h: "generateStory ?client ''fantasy'' mia 0 = (Returned ?r, 1)"
    unfolding generateStory_def generateStoryWith_def
    by (rule attemptLoop_success [where client = ?client and st = 0 and outcome = "Responds ''The end.''"])
      (simp_all add: maxRetries_def scriptedClient_def)
  have h2: "generateStoryWith ?parser ?client ''fantasy'' mia 0 = (Returned ?r2, 1)"
    unfolding generateStoryWith_def
    by (rule attemptLoop_success [where client = ?client and st = 0 and outcome = "Responds ''The end.''"])
      (simp_all add: maxRetries_def scriptedClient_def)
  have e: "\<exists>e. ?parser (rawText ?r2) mia = Inl e"
    by simp
  have one: "length (scenes (story ?r)) = 1"
    by (simp add: successResult_def parseOrEmergency_def tryParse_def parseStoryIntoScenes_def
        createEmergencyFallback_def Let_def)
  from sceneCount_is_number_of_scenes
    [where client = ?client and g = "''fantasy''" and c = mia and st = 0 and r = ?r
       and st' = 1 and parser = ?parser and client' = ?client and ?st2.0 = 0 and ?r2.0 = ?r2
       and ?st2' = 1] h h2 e one
  have "sceneCount (metadata ?r) = 1 \<and> sceneCount (metadata ?r2) = 1
      \<and> emergencyFallback (story ?r2)"
    by simp
  with h h2 show ?thesis
    by simp
qed

end
